theory Spec2Isabelle
  imports Main "HOL-Library.Sublist"
begin

section \<open>Strings of the log parsers\<close>

text \<open>
  The three parsers (\<^verbatim>\<open>minecraft_log_parser.py\<close>, \<^verbatim>\<open>claude_tooling/scripts/log_parser.py\<close>
  and \<^verbatim>\<open>claude_tooling/scripts/run_automated_tests.py\<close>) read the log with
  \<^verbatim>\<open>open(..., 'r', encoding='utf-8', errors='replace')\<close> and \<^verbatim>\<open>readlines()\<close>, so a line
  is a Python \<^verbatim>\<open>str\<close>: a sequence of Unicode code points.  A code point is a natural
  number here and a string a list of them; \<open>ustr\<close> writes an ASCII literal.
\<close>

type_synonym uchar = nat
type_synonym ustring = "uchar list"

definition ustr :: "string \<Rightarrow> ustring" where
  "ustr s = map of_char s"

definition LBRACKET :: uchar where "LBRACKET = 91"
definition RBRACKET :: uchar where "RBRACKET = 93"
definition SLASH :: uchar where "SLASH = 47"
definition SPACE :: uchar where "SPACE = 32"

text \<open>
  Python's \<^verbatim>\<open>str.rstrip()\<close> without argument and the class \<^verbatim>\<open>\s\<close> of \<^verbatim>\<open>re\<close> on
  \<^verbatim>\<open>str\<close> patterns both test \<^verbatim>\<open>Py_UNICODE_ISSPACE\<close>: U+0009..U+000D, U+001C..U+0020,
  U+0085, U+00A0, U+1680, U+2000..U+200A, U+2028, U+2029, U+202F, U+205F, U+3000.
\<close>

definition is_space :: "uchar \<Rightarrow> bool" where
  "is_space c \<longleftrightarrow>
     (9 \<le> c \<and> c \<le> 13) \<or> (28 \<le> c \<and> c \<le> 32) \<or> c = 133 \<or> c = 160 \<or> c = 5760 \<or>
     (8192 \<le> c \<and> c \<le> 8202) \<or> c = 8232 \<or> c = 8233 \<or> c = 8239 \<or> c = 8287 \<or> c = 12288"

text \<open>\<^verbatim>\<open>line.rstrip()\<close>: the line without its trailing whitespace.\<close>

definition rstrip :: "ustring \<Rightarrow> ustring" where
  "rstrip s = rev (dropWhile is_space (rev s))"

text \<open>\<^verbatim>\<open>line.startswith(p)\<close> and \<^verbatim>\<open>sub in line\<close>.\<close>

definition startswith :: "ustring \<Rightarrow> ustring \<Rightarrow> bool" where
  "startswith s p = prefix p s"

fun contains :: "ustring \<Rightarrow> ustring \<Rightarrow> bool" where
  "contains sub [] = (sub = [])"
| "contains sub (x # xs) = (prefix sub (x # xs) \<or> contains sub xs)"

section \<open>The header pattern\<close>

text \<open>
  All three parsers compile the same pattern,
  \<^verbatim>\<open>^\[([^\]]+)\]\s*\[([^\]]+)/(WARN|ERROR|FATAL)\]\<close>, and apply it with \<^verbatim>\<open>match\<close>, which
  tries the pattern at position 0 only (so the leading \<^verbatim>\<open>^\<close> holds there and is not an
  item of its own below).  The pattern is a sequence of items; an item is an atom,
  plain or in a capturing group.  The atoms it needs: one character of a class, a
  greedy \<^verbatim>\<open>+\<close> or \<^verbatim>\<open>*\<close> over a class, and an alternation of literal words.
\<close>

datatype cls = Is uchar | Isnt uchar | Whitespace

fun in_cls :: "cls \<Rightarrow> uchar \<Rightarrow> bool" where
  "in_cls (Is c) x = (x = c)"
| "in_cls (Isnt c) x = (x \<noteq> c)"
| "in_cls Whitespace x = is_space x"

datatype atom = One cls | Plus cls | Star cls | Alt "ustring list"

datatype item = Plain atom | Group atom

text \<open>
  \<open>atom_ends a s\<close>: the numbers of characters the atom may consume at the front of
  \<open>s\<close>, in the order in which the backtracking matcher tries them: a greedy repetition
  takes the longest run first and gives characters back one by one; an alternation
  tries its words from left to right.
\<close>

fun atom_ends :: "atom \<Rightarrow> ustring \<Rightarrow> nat list" where
  "atom_ends (One c) s = (case s of [] \<Rightarrow> [] | x # _ \<Rightarrow> if in_cls c x then [1] else [])"
| "atom_ends (Plus c) s = rev [1..<Suc (length (takeWhile (in_cls c) s))]"
| "atom_ends (Star c) s = rev [0..<Suc (length (takeWhile (in_cls c) s))]"
| "atom_ends (Alt ws) s = map length (filter (\<lambda>w. prefix w s) ws)"

text \<open>
  \<open>matches its s\<close>: every way the item sequence matches a prefix of \<open>s\<close>, as the list of
  its captured groups, in the matcher's order of preference.  The match the \<^verbatim>\<open>re\<close>
  module reports is the first one.
\<close>

fun matches :: "item list \<Rightarrow> ustring \<Rightarrow> ustring list list" where
  "matches [] s = [[]]"
| "matches (Plain a # its) s =
     concat (map (\<lambda>n. matches its (drop n s)) (atom_ends a s))"
| "matches (Group a # its) s =
     concat (map (\<lambda>n. map ((#) (take n s)) (matches its (drop n s))) (atom_ends a s))"

definition re_match :: "item list \<Rightarrow> ustring \<Rightarrow> ustring list option" where
  "re_match its s = (case matches its s of [] \<Rightarrow> None | m # _ \<Rightarrow> Some m)"

definition levels :: "ustring list" where
  "levels = [ustr ''WARN'', ustr ''ERROR'', ustr ''FATAL'']"

definition log_pattern :: "item list" where
  "log_pattern =
     [Plain (One (Is LBRACKET)), Group (Plus (Isnt RBRACKET)), Plain (One (Is RBRACKET)),
      Plain (Star Whitespace),
      Plain (One (Is LBRACKET)), Group (Plus (Isnt RBRACKET)), Plain (One (Is SLASH)),
      Group (Alt levels), Plain (One (Is RBRACKET))]"

text \<open>
  \<^verbatim>\<open>log_pattern.match(line)\<close> with its three groups \<^verbatim>\<open>group(1)\<close>, \<^verbatim>\<open>group(2)\<close>,
  \<^verbatim>\<open>group(3)\<close>; \<open>None\<close> when the line does not match.
\<close>

definition log_pattern_match :: "ustring \<Rightarrow> (ustring \<times> ustring \<times> ustring) option" where
  "log_pattern_match line =
     (case re_match log_pattern line of
        Some [g1, g2, g3] \<Rightarrow> Some (g1, g2, g3)
      | _ \<Rightarrow> None)"

section \<open>The standalone parser: minecraft_log_parser.py\<close>

record entry =
  line_number :: nat
  timestamp :: ustring
  category :: ustring
  level :: ustring
  content :: "ustring list"

text \<open>
  One iteration of the \<^verbatim>\<open>for i, line in enumerate(lines)\<close> loop of \<^verbatim>\<open>parse_log\<close>.
  The state is \<^verbatim>\<open>self.entries\<close> and \<^verbatim>\<open>current_entry\<close> (\<open>None\<close> as in the source; an
  entry dictionary is never empty, so \<^verbatim>\<open>if current_entry\<close> tests for \<open>None\<close>).
  \<open>is_boundary\<close> names the test \<^verbatim>\<open>line.startswith('[') and '] [' in line\<close>.
\<close>

definition is_boundary :: "ustring \<Rightarrow> bool" where
  "is_boundary line \<longleftrightarrow>
     startswith line [LBRACKET] \<and> contains [RBRACKET, SPACE, LBRACKET] line"

fun step :: "nat \<Rightarrow> ustring \<Rightarrow> entry list \<times> entry option \<Rightarrow> entry list \<times> entry option" where
  "step i line (es, cur) =
     (case log_pattern_match line of
        Some (g1, g2, g3) \<Rightarrow>
          ((case cur of Some e \<Rightarrow> es @ [e] | None \<Rightarrow> es),
           Some \<lparr>line_number = i + 1, timestamp = g1, category = g2, level = g3,
                 content = [rstrip line]\<rparr>)
      | None \<Rightarrow>
          (case cur of
             Some e \<Rightarrow>
               if is_boundary line then (es @ [e], None)
               else (es, Some (e\<lparr>content := content e @ [rstrip line]\<rparr>))
           | None \<Rightarrow> (es, None)))"

fun parse_loop :: "nat \<Rightarrow> ustring list \<Rightarrow> entry list \<times> entry option \<Rightarrow> entry list \<times> entry option" where
  "parse_loop i [] st = st"
| "parse_loop i (line # rest) st = parse_loop (i + 1) rest (step i line st)"

text \<open>After the loop: \<^verbatim>\<open>if current_entry: self.entries.append(current_entry)\<close>.\<close>

fun finish :: "entry list \<times> entry option \<Rightarrow> entry list" where
  "finish (es, Some e) = es @ [e]"
| "finish (es, None) = es"

text \<open>
  \<^verbatim>\<open>MinecraftLogParser\<close>: the object holds the path and the entries found so far;
  \<^verbatim>\<open>__init__\<close> sets \<^verbatim>\<open>self.entries = []\<close> and \<^verbatim>\<open>parse_log\<close> appends to it.
\<close>

type_synonym path = ustring

record parser =
  log_path :: path
  entries :: "entry list"

definition init :: "path \<Rightarrow> parser" where
  "init p = \<lparr>log_path = p, entries = []\<rparr>"

text \<open>
  What \<^verbatim>\<open>parse_log\<close> can raise: the \<^verbatim>\<open>OSError\<close> of a failing \<^verbatim>\<open>stat\<close> that
  \<^verbatim>\<open>Path.exists()\<close> raises again, an exception out of \<^verbatim>\<open>print\<close>, and the
  \<^verbatim>\<open>IndexError\<close> of \<^verbatim>\<open>match.group(k)\<close> for a group the match does not have.
\<close>

datatype py_error = StatError | PrintError | IndexError

text \<open>
  What the file system holds at a path, as \<^verbatim>\<open>parse_log\<close> meets it: nothing
  (\<^verbatim>\<open>stat\<close> fails with ENOENT, ENOTDIR, EBADF or ELOOP, which \<^verbatim>\<open>Path.exists()\<close> turns
  into \<open>False\<close>); a path at which \<^verbatim>\<open>stat\<close> fails with another \<^verbatim>\<open>OSError\<close> (a name too
  long, a directory that may not be searched), which \<^verbatim>\<open>Path.exists()\<close> raises again; a
  file whose \<^verbatim>\<open>open\<close> or \<^verbatim>\<open>readlines\<close> raises; or the decoded lines \<^verbatim>\<open>readlines()\<close>
  returns.
\<close>

datatype fnode = StatFails | Unreadable | Lines "ustring list"

type_synonym filesystem = "path \<Rightarrow> fnode option"

text \<open>\<^verbatim>\<open>self.log_path.exists()\<close>; the call stands outside the \<^verbatim>\<open>try\<close>.\<close>

definition path_exists :: "filesystem \<Rightarrow> path \<Rightarrow> py_error + bool" where
  "path_exists fs p =
     (case fs p of
        None \<Rightarrow> Inr False
      | Some StatFails \<Rightarrow> Inl StatError
      | Some Unreadable \<Rightarrow> Inr True
      | Some (Lines lines) \<Rightarrow> Inr True)"

text \<open>
  The body of the \<^verbatim>\<open>try\<close>, \<^verbatim>\<open>open\<close> and \<^verbatim>\<open>f.readlines()\<close>: \<open>None\<close> when it raises,
  which \<^verbatim>\<open>except Exception\<close> catches.
\<close>

definition read_lines :: "filesystem \<Rightarrow> path \<Rightarrow> ustring list option" where
  "read_lines fs p = (case fs p of Some (Lines lines) \<Rightarrow> Some lines | _ \<Rightarrow> None)"

text \<open>
  \<^verbatim>\<open>print(...)\<close>: \<open>out\<close> tells whether \<^verbatim>\<open>sys.stdout\<close> takes the message (a closed stream
  or a message the stream cannot encode makes \<^verbatim>\<open>print\<close> raise).  Both \<^verbatim>\<open>print\<close> calls
  of \<^verbatim>\<open>parse_log\<close> stand outside the \<^verbatim>\<open>try\<close>.
\<close>

definition print_line :: "bool \<Rightarrow> py_error + unit" where
  "print_line out = (if out then Inr () else Inl PrintError)"

text \<open>
  \<^verbatim>\<open>match.group(k)\<close>, here \<open>match_group\<close>, on a match object with the capturing groups \<open>m\<close>; the parser asks
  for the groups 1, 2 and 3 (the whole match, \<^verbatim>\<open>group(0)\<close>, is never asked for and is
  not kept in \<open>m\<close>).
\<close>

definition match_group :: "ustring list \<Rightarrow> nat \<Rightarrow> py_error + ustring" where
  "match_group m k = (if 1 \<le> k \<and> k \<le> length m then Inr (m ! (k - 1)) else Inl IndexError)"

text \<open>
  The loop once more, with the three \<^verbatim>\<open>match.group\<close> calls of the new entry spelt out,
  each of which may raise; an exception ends the loop.
\<close>

fun step_e :: "nat \<Rightarrow> ustring \<Rightarrow> entry list \<times> entry option \<Rightarrow>
    py_error + entry list \<times> entry option" where
  "step_e i line (es, cur) =
     (case re_match log_pattern line of
        Some m \<Rightarrow>
          (case match_group m 1 of
             Inl x \<Rightarrow> Inl x
           | Inr g1 \<Rightarrow>
               (case match_group m 2 of
                  Inl x \<Rightarrow> Inl x
                | Inr g2 \<Rightarrow>
                    (case match_group m 3 of
                       Inl x \<Rightarrow> Inl x
                     | Inr g3 \<Rightarrow>
                         Inr ((case cur of Some e \<Rightarrow> es @ [e] | None \<Rightarrow> es),
                              Some \<lparr>line_number = i + 1, timestamp = g1, category = g2,
                                    level = g3, content = [rstrip line]\<rparr>))))
      | None \<Rightarrow>
          Inr (case cur of
                 Some e \<Rightarrow>
                   if startswith line [LBRACKET] \<and> contains [RBRACKET, SPACE, LBRACKET] line
                   then (es @ [e], None)
                   else (es, Some (e\<lparr>content := content e @ [rstrip line]\<rparr>))
               | None \<Rightarrow> (es, None)))"

fun parse_loop_e :: "nat \<Rightarrow> ustring list \<Rightarrow> entry list \<times> entry option \<Rightarrow>
    py_error + entry list \<times> entry option" where
  "parse_loop_e i [] st = Inr st"
| "parse_loop_e i (line # rest) st =
     (case step_e i line st of
        Inl x \<Rightarrow> Inl x
      | Inr st' \<Rightarrow> parse_loop_e (i + 1) rest st')"

text \<open>
  \<^verbatim>\<open>parse_log\<close>: an exception that leaves the method, or the returned boolean and the
  object afterwards.
\<close>

definition parse_log :: "filesystem \<Rightarrow> bool \<Rightarrow> parser \<Rightarrow> py_error + bool \<times> parser" where
  "parse_log fs out self =
     (case path_exists fs (log_path self) of
        Inl x \<Rightarrow> Inl x
      | Inr False \<Rightarrow>
          (case print_line out of
             Inl x \<Rightarrow> Inl x
           | Inr u \<Rightarrow> Inr (False, self))
      | Inr True \<Rightarrow>
          (case read_lines fs (log_path self) of
             None \<Rightarrow>
               (case print_line out of
                  Inl x \<Rightarrow> Inl x
                | Inr u \<Rightarrow> Inr (False, self))
           | Some lines \<Rightarrow>
               (case parse_loop_e 0 lines (entries self, None) of
                  Inl x \<Rightarrow> Inl x
                | Inr st \<Rightarrow> Inr (True, self\<lparr>entries := finish st\<rparr>))))"

text \<open>
  The entries the loop and the final append produce from \<open>lines\<close>, starting with no
  entries: what \<^verbatim>\<open>parse_log\<close> leaves in a freshly constructed parser that read them.
\<close>

definition segment :: "ustring list \<Rightarrow> entry list" where
  "segment lines = finish (parse_loop 0 lines ([], None))"

section \<open>The test runner's parser: claude_tooling/scripts/run_automated_tests.py\<close>

text \<open>
  The class \<^verbatim>\<open>MinecraftLogParser\<close> of the test runner is written out a second time in
  the source, with the same dictionary keys as the standalone parser.  Its loop:
\<close>

fun r_step :: "nat \<Rightarrow> ustring \<Rightarrow> entry list \<times> entry option \<Rightarrow> entry list \<times> entry option" where
  "r_step i line (es, cur) =
     (case log_pattern_match line of
        Some (g1, g2, g3) \<Rightarrow>
          ((case cur of Some e \<Rightarrow> es @ [e] | None \<Rightarrow> es),
           Some \<lparr>line_number = i + 1, timestamp = g1, category = g2, level = g3,
                 content = [rstrip line]\<rparr>)
      | None \<Rightarrow>
          (case cur of
             Some e \<Rightarrow>
               if startswith line [LBRACKET] \<and> contains [RBRACKET, SPACE, LBRACKET] line
               then (es @ [e], None)
               else (es, Some (e\<lparr>content := content e @ [rstrip line]\<rparr>))
           | None \<Rightarrow> (es, None)))"

fun r_parse_loop :: "nat \<Rightarrow> ustring list \<Rightarrow> entry list \<times> entry option \<Rightarrow> entry list \<times> entry option" where
  "r_parse_loop i [] st = st"
| "r_parse_loop i (line # rest) st = r_parse_loop (i + 1) rest (r_step i line st)"

section \<open>The tooling parser: claude_tooling/scripts/log_parser.py\<close>

text \<open>
  The tooling variant strips each line first and works on \<^verbatim>\<open>line_stripped\<close> throughout.
  Its entries are dictionaries with the keys \<^verbatim>\<open>line_number\<close>, \<^verbatim>\<open>timestamp\<close>,
  \<^verbatim>\<open>thread_category\<close>, \<^verbatim>\<open>level\<close>, \<^verbatim>\<open>content\<close> and \<^verbatim>\<open>is_biomepruner\<close>; it also keeps
  \<^verbatim>\<open>self.biomepruner_messages\<close>, dictionaries with \<^verbatim>\<open>line_number\<close> and \<^verbatim>\<open>content\<close>.
\<close>

record t_entry =
  t_line_number :: nat
  t_timestamp :: ustring
  thread_category :: ustring
  t_level :: ustring
  t_content :: "ustring list"
  is_biomepruner :: bool

record message =
  m_line_number :: nat
  m_content :: ustring

text \<open>
  \<^verbatim>\<open>biomepruner_pattern = re.compile(r'biomepruner|BiomePruner', re.IGNORECASE)\<close>.
  Which text character a pattern letter matches under \<^verbatim>\<open>re.IGNORECASE\<close> is decided by
  the case tables of the Python runtime, which are no part of the repository: the
  relation is the parameter \<open>ci\<close> (\<open>ci p x\<close>: pattern character \<open>p\<close> matches text
  character \<open>x\<close>).  \<open>match_ci\<close> matches one word at the front of the text and
  \<open>search_ci\<close> is \<^verbatim>\<open>pattern.search\<close>, which tries every start position; only the truth
  value of the result is used by the parser.
\<close>

fun match_ci :: "(uchar \<Rightarrow> uchar \<Rightarrow> bool) \<Rightarrow> ustring \<Rightarrow> ustring \<Rightarrow> bool" where
  "match_ci ci [] s = True"
| "match_ci ci (p # ps) [] = False"
| "match_ci ci (p # ps) (x # xs) = (ci p x \<and> match_ci ci ps xs)"

fun search_ci :: "(uchar \<Rightarrow> uchar \<Rightarrow> bool) \<Rightarrow> ustring list \<Rightarrow> ustring \<Rightarrow> bool" where
  "search_ci ci ws [] = list_ex (\<lambda>w. match_ci ci w []) ws"
| "search_ci ci ws (x # xs) = (list_ex (\<lambda>w. match_ci ci w (x # xs)) ws \<or> search_ci ci ws xs)"

definition biomepruner_search :: "(uchar \<Rightarrow> uchar \<Rightarrow> bool) \<Rightarrow> ustring \<Rightarrow> bool" where
  "biomepruner_search ci s = search_ci ci [ustr ''biomepruner'', ustr ''BiomePruner''] s"

text \<open>
  An instance of \<open>ci\<close> for evaluation: the ASCII letters, upper and lower case alike.
\<close>

definition ascii_lower :: "uchar \<Rightarrow> uchar" where
  "ascii_lower c = (if 65 \<le> c \<and> c \<le> 90 then c + 32 else c)"

definition ascii_ci :: "uchar \<Rightarrow> uchar \<Rightarrow> bool" where
  "ascii_ci p x \<longleftrightarrow> ascii_lower p = ascii_lower x"

text \<open>
  One iteration of the loop.  The state is \<^verbatim>\<open>self.biomepruner_messages\<close>,
  \<^verbatim>\<open>self.entries\<close> and \<^verbatim>\<open>current_entry\<close>.
\<close>

fun t_step :: "(uchar \<Rightarrow> uchar \<Rightarrow> bool) \<Rightarrow> nat \<Rightarrow> ustring \<Rightarrow>
    message list \<times> t_entry list \<times> t_entry option \<Rightarrow> message list \<times> t_entry list \<times> t_entry option" where
  "t_step ci i line (msgs, es, cur) =
     (let line_number = i + 1;
          line_stripped = rstrip line;
          msgs' = (if biomepruner_search ci line_stripped
                   then msgs @ [\<lparr>m_line_number = line_number, m_content = line_stripped\<rparr>]
                   else msgs)
      in case log_pattern_match line_stripped of
           Some (g1, g2, g3) \<Rightarrow>
             (msgs',
              (case cur of Some e \<Rightarrow> es @ [e] | None \<Rightarrow> es),
              Some \<lparr>t_line_number = line_number, t_timestamp = g1, thread_category = g2,
                    t_level = g3, t_content = [line_stripped],
                    is_biomepruner = biomepruner_search ci line_stripped\<rparr>)
         | None \<Rightarrow>
             (case cur of
                Some e \<Rightarrow>
                  if startswith line_stripped [LBRACKET] \<and>
                     contains [RBRACKET, SPACE, LBRACKET] line_stripped
                  then (msgs', es @ [e], None)
                  else (msgs', es,
                        Some (e\<lparr>t_content := t_content e @ [line_stripped],
                                is_biomepruner :=
                                  (if biomepruner_search ci line_stripped then True
                                   else is_biomepruner e)\<rparr>))
              | None \<Rightarrow> (msgs', es, None)))"

fun t_parse_loop :: "(uchar \<Rightarrow> uchar \<Rightarrow> bool) \<Rightarrow> nat \<Rightarrow> ustring list \<Rightarrow>
    message list \<times> t_entry list \<times> t_entry option \<Rightarrow> message list \<times> t_entry list \<times> t_entry option" where
  "t_parse_loop ci i [] st = st"
| "t_parse_loop ci i (line # rest) st = t_parse_loop ci (i + 1) rest (t_step ci i line st)"

fun t_finish :: "message list \<times> t_entry list \<times> t_entry option \<Rightarrow> message list \<times> t_entry list" where
  "t_finish (msgs, es, Some e) = (msgs, es @ [e])"
| "t_finish (msgs, es, None) = (msgs, es)"

text \<open>
  The fields the three parsers have in common, read off a tooling entry
  (\<^verbatim>\<open>thread_category\<close> is the tooling variant's name of \<^verbatim>\<open>category\<close>).
\<close>

definition common_fields :: "t_entry \<Rightarrow> entry" where
  "common_fields e =
     \<lparr>line_number = t_line_number e, timestamp = t_timestamp e, category = thread_category e,
      level = t_level e, content = t_content e\<rparr>"

text \<open>
  The entries the loops of the other two parsers, with their final append, produce
  from \<open>lines\<close>, starting with no entries.
\<close>

definition r_segment :: "ustring list \<Rightarrow> entry list" where
  "r_segment lines = finish (r_parse_loop 0 lines ([], None))"

definition t_segment :: "(uchar \<Rightarrow> uchar \<Rightarrow> bool) \<Rightarrow> ustring list \<Rightarrow> t_entry list" where
  "t_segment ci lines = snd (t_finish (t_parse_loop ci 0 lines ([], [], None)))"

section \<open>Auxiliary notions for the proofs\<close>

text \<open>The strings an atom accepts, without regard to the order of attempts.\<close>

fun accepts :: "atom \<Rightarrow> ustring \<Rightarrow> bool" where
  "accepts (One c) u = (case u of [x] \<Rightarrow> in_cls c x | _ \<Rightarrow> False)"
| "accepts (Plus c) u = (u \<noteq> [] \<and> list_all (in_cls c) u)"
| "accepts (Star c) u = list_all (in_cls c) u"
| "accepts (Alt ws) u = (u \<in> set ws)"

text \<open>
  The anatomy of a header line: \<^verbatim>\<open>[ts]\<close>, whitespace \<open>ws\<close>, \<^verbatim>\<open>[cat/lvl]\<close>, and the rest.
\<close>

definition header_shape ::
  "ustring \<Rightarrow> ustring \<Rightarrow> ustring \<Rightarrow> ustring \<Rightarrow> ustring \<Rightarrow> ustring \<Rightarrow> bool" where
  "header_shape line ts ws cat lvl rest \<longleftrightarrow>
     line = LBRACKET # ts @ RBRACKET # ws @ LBRACKET # cat @ SLASH # lvl @ RBRACKET # rest \<and>
     ts \<noteq> [] \<and> RBRACKET \<notin> set ts \<and> list_all is_space ws \<and>
     cat \<noteq> [] \<and> RBRACKET \<notin> set cat \<and> lvl \<in> set levels"

text \<open>
  An entry's flag agrees with its content: it is set exactly when the filter finds
  one of the content lines.
\<close>

definition flag_ok :: "(uchar \<Rightarrow> uchar \<Rightarrow> bool) \<Rightarrow> t_entry \<Rightarrow> bool" where
  "flag_ok ci e \<longleftrightarrow> is_biomepruner e = list_ex (biomepruner_search ci) (t_content e)"

fun flags_ok :: "(uchar \<Rightarrow> uchar \<Rightarrow> bool) \<Rightarrow> message list \<times> t_entry list \<times> t_entry option \<Rightarrow> bool" where
  "flags_ok ci (msgs, es, None) = list_all (flag_ok ci) es"
| "flags_ok ci (msgs, es, Some e) = (list_all (flag_ok ci) es \<and> flag_ok ci e)"

text \<open>The letter both words of the filter end with.\<close>

definition LOWER_R :: uchar where "LOWER_R = 114"

section \<open>The matcher: what the header pattern accepts\<close>

lemma le_length_takeWhile:
  "n \<le> length (takeWhile P s) \<longleftrightarrow> n \<le> length s \<and> list_all P (take n s)"
proof (induction s arbitrary: n)
  case Nil
  then show ?case by simp
next
  case (Cons x s)
  then show ?case by (cases n) auto
qed

lemma atom_ends_iff:
  "n \<in> set (atom_ends a s) \<longleftrightarrow> n \<le> length s \<and> accepts a (take n s)"
proof (cases a)
  case (One c)
  show ?thesis
  proof (cases s)
    case Nil
    with One show ?thesis by simp
  next
    case (Cons x r)
    with One show ?thesis by (cases n) (auto split: list.splits nat.splits)
  qed
next
  case (Plus c)
  have "n \<in> set (atom_ends (Plus c) s) \<longleftrightarrow> 1 \<le> n \<and> n \<le> length (takeWhile (in_cls c) s)"
    by auto
  also have "\<dots> \<longleftrightarrow> 1 \<le> n \<and> n \<le> length s \<and> list_all (in_cls c) (take n s)"
    by (simp only: le_length_takeWhile)
  also have "\<dots> \<longleftrightarrow> n \<le> length s \<and> accepts (Plus c) (take n s)"
    by (cases n) auto
  finally show ?thesis using Plus by simp
next
  case (Star c)
  have "n \<in> set (atom_ends (Star c) s) \<longleftrightarrow> n \<le> length (takeWhile (in_cls c) s)"
    by auto
  also have "\<dots> \<longleftrightarrow> n \<le> length s \<and> accepts (Star c) (take n s)"
    by (simp only: le_length_takeWhile accepts.simps)
  finally show ?thesis using Star by simp
next
  case (Alt ws)
  have "n \<in> set (atom_ends (Alt ws) s) \<longleftrightarrow> n \<le> length s \<and> take n s \<in> set ws"
  proof
    assume "n \<in> set (atom_ends (Alt ws) s)"
    then obtain w where w: "w \<in> set ws" "prefix w s" "n = length w" by auto
    then obtain zs where "s = w @ zs" by (auto simp: prefix_def)
    with w show "n \<le> length s \<and> take n s \<in> set ws" by simp
  next
    assume h: "n \<le> length s \<and> take n s \<in> set ws"
    then have "prefix (take n s) s" "length (take n s) = n"
      by (simp_all add: take_is_prefix)
    with h show "n \<in> set (atom_ends (Alt ws) s)" by force
  qed
  with Alt show ?thesis by simp
qed

lemma split_by_length:
  "(\<exists>n. n \<le> length s \<and> Q (take n s) (drop n s)) \<longleftrightarrow> (\<exists>u v. s = u @ v \<and> Q u v)"
proof
  assume "\<exists>n. n \<le> length s \<and> Q (take n s) (drop n s)"
  then obtain n where "Q (take n s) (drop n s)" by blast
  moreover have "s = take n s @ drop n s" by simp
  ultimately show "\<exists>u v. s = u @ v \<and> Q u v" by blast
next
  assume "\<exists>u v. s = u @ v \<and> Q u v"
  then obtain u v where "s = u @ v" "Q u v" by blast
  then have "length u \<le> length s \<and> Q (take (length u) s) (drop (length u) s)" by simp
  then show "\<exists>n. n \<le> length s \<and> Q (take n s) (drop n s)" by blast
qed

lemma in_matches_Plain:
  "m \<in> set (matches (Plain a # its) s) \<longleftrightarrow>
     (\<exists>u v. s = u @ v \<and> accepts a u \<and> m \<in> set (matches its v))"
proof -
  have "m \<in> set (matches (Plain a # its) s) \<longleftrightarrow>
        (\<exists>n. n \<le> length s \<and> (accepts a (take n s) \<and> m \<in> set (matches its (drop n s))))"
    by (auto simp: atom_ends_iff)
  also have "\<dots> \<longleftrightarrow> (\<exists>u v. s = u @ v \<and> (accepts a u \<and> m \<in> set (matches its v)))"
    by (rule split_by_length)
  finally show ?thesis .
qed

lemma in_matches_Group:
  "m \<in> set (matches (Group a # its) s) \<longleftrightarrow>
     (\<exists>u v. s = u @ v \<and> accepts a u \<and> (\<exists>m'. m = u # m' \<and> m' \<in> set (matches its v)))"
proof -
  have "m \<in> set (matches (Group a # its) s) \<longleftrightarrow>
        (\<exists>n. n \<le> length s \<and> (accepts a (take n s) \<and>
           (\<exists>m'. m = take n s # m' \<and> m' \<in> set (matches its (drop n s)))))"
    by (auto simp: atom_ends_iff)
  also have "\<dots> \<longleftrightarrow> (\<exists>u v. s = u @ v \<and> (accepts a u \<and>
           (\<exists>m'. m = u # m' \<and> m' \<in> set (matches its v))))"
    by (rule split_by_length)
  finally show ?thesis .
qed


lemma accepts_One: "accepts (One c) u \<longleftrightarrow> (\<exists>x. u = [x] \<and> in_cls c x)"
  by (auto split: list.splits)

lemma list_all_Isnt: "list_all (in_cls (Isnt c)) u \<longleftrightarrow> c \<notin> set u"
  by (induction u) auto

lemma list_all_Whitespace: "list_all (in_cls Whitespace) u \<longleftrightarrow> list_all is_space u"
  by (induction u) auto


lemma in_matches_lit:
  "m \<in> set (matches (Plain (One (Is c)) # its) s) \<longleftrightarrow>
     (\<exists>v. s = c # v \<and> m \<in> set (matches its v))"
  unfolding in_matches_Plain accepts_One by auto

lemma in_matches_span:
  "m \<in> set (matches (Group (Plus (Isnt c)) # its) s) \<longleftrightarrow>
     (\<exists>u v m'. s = u @ v \<and> u \<noteq> [] \<and> c \<notin> set u \<and> m = u # m' \<and> m' \<in> set (matches its v))"
  unfolding in_matches_Group accepts.simps list_all_Isnt by auto

lemma in_matches_spaces:
  "m \<in> set (matches (Plain (Star Whitespace) # its) s) \<longleftrightarrow>
     (\<exists>u v. s = u @ v \<and> list_all is_space u \<and> m \<in> set (matches its v))"
  unfolding in_matches_Plain accepts.simps list_all_Whitespace by auto

lemma in_matches_words:
  "m \<in> set (matches (Group (Alt ws) # its) s) \<longleftrightarrow>
     (\<exists>u v m'. s = u @ v \<and> u \<in> set ws \<and> m = u # m' \<and> m' \<in> set (matches its v))"
  unfolding in_matches_Group accepts.simps by auto


lemma in_matches_log_pattern:
  "m \<in> set (matches log_pattern line) \<longleftrightarrow>
     (\<exists>ts ws cat lvl rest. m = [ts, cat, lvl] \<and> header_shape line ts ws cat lvl rest)"
proof -
  let ?p9 = "[Plain (One (Is RBRACKET))]"
  let ?p8 = "Group (Alt levels) # ?p9"
  let ?p7 = "Plain (One (Is SLASH)) # ?p8"
  let ?p6 = "Group (Plus (Isnt RBRACKET)) # ?p7"
  let ?p5 = "Plain (One (Is LBRACKET)) # ?p6"
  let ?p4 = "Plain (Star Whitespace) # ?p5"
  let ?p3 = "Plain (One (Is RBRACKET)) # ?p4"
  let ?p2 = "Group (Plus (Isnt RBRACKET)) # ?p3"
  have p: "log_pattern = Plain (One (Is LBRACKET)) # ?p2"
    by (simp only: log_pattern_def)
  show ?thesis
  proof
    assume "m \<in> set (matches log_pattern line)"
    then have "m \<in> set (matches (Plain (One (Is LBRACKET)) # ?p2) line)"
      by (simp only: p)
    then obtain v1 where 1: "line = LBRACKET # v1" and m1: "m \<in> set (matches ?p2 v1)"
      by (auto simp only: in_matches_lit)
    from m1 obtain ts v2 m2 where 2: "v1 = ts @ v2" "ts \<noteq> []" "RBRACKET \<notin> set ts" "m = ts # m2"
      and m2: "m2 \<in> set (matches ?p3 v2)"
      by (auto simp only: in_matches_span)
    from m2 obtain v3 where 3: "v2 = RBRACKET # v3" and m3: "m2 \<in> set (matches ?p4 v3)"
      by (auto simp only: in_matches_lit)
    from m3 obtain ws v4 where 4: "v3 = ws @ v4" "list_all is_space ws"
      and m4: "m2 \<in> set (matches ?p5 v4)"
      by (auto simp only: in_matches_spaces)
    from m4 obtain v5 where 5: "v4 = LBRACKET # v5" and m5: "m2 \<in> set (matches ?p6 v5)"
      by (auto simp only: in_matches_lit)
    from m5 obtain cat v6 m6 where 6: "v5 = cat @ v6" "cat \<noteq> []" "RBRACKET \<notin> set cat"
      "m2 = cat # m6" and m6: "m6 \<in> set (matches ?p7 v6)"
      by (auto simp only: in_matches_span)
    from m6 obtain v7 where 7: "v6 = SLASH # v7" and m7: "m6 \<in> set (matches ?p8 v7)"
      by (auto simp only: in_matches_lit)
    from m7 obtain lvl v8 m8 where 8: "v7 = lvl @ v8" "lvl \<in> set levels" "m6 = lvl # m8"
      and m8: "m8 \<in> set (matches ?p9 v8)"
      by (auto simp only: in_matches_words)
    from m8 obtain rest where 9: "v8 = RBRACKET # rest" "m8 \<in> set (matches [] rest)"
      by (auto simp only: in_matches_lit)
    then have 10: "m8 = []" by simp
    have "m = [ts, cat, lvl]"
      using 2 6 8 10 by simp
    moreover have "header_shape line ts ws cat lvl rest"
      unfolding header_shape_def using 1 2 3 4 5 6 7 8 9 by simp
    ultimately show "\<exists>ts ws cat lvl rest. m = [ts, cat, lvl] \<and> header_shape line ts ws cat lvl rest"
      by blast
  next
    assume "\<exists>ts ws cat lvl rest. m = [ts, cat, lvl] \<and> header_shape line ts ws cat lvl rest"
    then obtain ts ws cat lvl rest where m: "m = [ts, cat, lvl]"
      and line: "line = LBRACKET # ts @ RBRACKET # ws @ LBRACKET # cat @ SLASH # lvl @ RBRACKET # rest"
      and c: "ts \<noteq> []" "RBRACKET \<notin> set ts" "list_all is_space ws" "cat \<noteq> []"
        "RBRACKET \<notin> set cat" "lvl \<in> set levels"
      unfolding header_shape_def by blast
    have "[] \<in> set (matches [] rest)"
      by simp
    then have "[] \<in> set (matches ?p9 (RBRACKET # rest))"
      by (simp only: in_matches_lit) blast
    with c have "[lvl] \<in> set (matches ?p8 (lvl @ RBRACKET # rest))"
      by (simp only: in_matches_words) blast
    then have "[lvl] \<in> set (matches ?p7 (SLASH # lvl @ RBRACKET # rest))"
      by (simp only: in_matches_lit) blast
    with c have "[cat, lvl] \<in> set (matches ?p6 (cat @ SLASH # lvl @ RBRACKET # rest))"
      by (simp only: in_matches_span) blast
    then have "[cat, lvl] \<in> set (matches ?p5 (LBRACKET # cat @ SLASH # lvl @ RBRACKET # rest))"
      by (simp only: in_matches_lit) blast
    with c have "[cat, lvl] \<in> set (matches ?p4 (ws @ LBRACKET # cat @ SLASH # lvl @ RBRACKET # rest))"
      by (simp only: in_matches_spaces) blast
    then have "[cat, lvl] \<in> set (matches ?p3 (RBRACKET # ws @ LBRACKET # cat @ SLASH # lvl @ RBRACKET # rest))"
      by (simp only: in_matches_lit) blast
    with c have "[ts, cat, lvl] \<in> set (matches ?p2
        (ts @ RBRACKET # ws @ LBRACKET # cat @ SLASH # lvl @ RBRACKET # rest))"
      by (simp only: in_matches_span) blast
    then have "[ts, cat, lvl] \<in> set (matches (Plain (One (Is LBRACKET)) # ?p2) line)"
      unfolding line by (simp only: in_matches_lit) blast
    then show "m \<in> set (matches log_pattern line)"
      by (simp only: p m)
  qed
qed

text \<open>A header line has one anatomy only, so the pattern matches in at most one way.\<close>

lemma split_at_first:
  "x \<notin> set xs \<Longrightarrow> x \<notin> set ys \<Longrightarrow> xs @ x # xs' = ys @ x # ys' \<Longrightarrow> xs = ys \<and> xs' = ys'"
proof (induction xs arbitrary: ys)
  case Nil
  then show ?case by (cases ys) auto
next
  case (Cons a xs)
  then show ?case by (cases ys) auto
qed

lemma split_at_last:
  assumes "x \<notin> set xs'" and "x \<notin> set ys'" and "xs @ x # xs' = ys @ x # ys'"
  shows "xs = ys \<and> xs' = ys'"
proof -
  from assms(3) have "rev (xs @ x # xs') = rev (ys @ x # ys')"
    by simp
  then have "rev xs' @ x # rev xs = rev ys' @ x # rev ys"
    by simp
  moreover from assms have "x \<notin> set (rev xs')" "x \<notin> set (rev ys')"
    by simp_all
  ultimately have "rev xs' = rev ys' \<and> rev xs = rev ys"
    by (rule split_at_first [rotated 2])
  then show ?thesis by simp
qed

lemma header_shape_unique:
  assumes "header_shape line ts ws cat lvl rest" and "header_shape line ts' ws' cat' lvl' rest'"
  shows "ts = ts' \<and> ws = ws' \<and> cat = cat' \<and> lvl = lvl' \<and> rest = rest'"
proof -
  have nb: "\<not> is_space LBRACKET"
    by (simp add: LBRACKET_def is_space_def)
  have lv: "\<And>l. l \<in> set levels \<Longrightarrow> SLASH \<notin> set l \<and> RBRACKET \<notin> set l"
    by (auto simp: levels_def ustr_def SLASH_def RBRACKET_def)
  from assms have eq1: "ts @ RBRACKET # (ws @ LBRACKET # cat @ SLASH # lvl @ RBRACKET # rest) =
      ts' @ RBRACKET # (ws' @ LBRACKET # cat' @ SLASH # lvl' @ RBRACKET # rest')"
    and t: "RBRACKET \<notin> set ts" "RBRACKET \<notin> set ts'"
    and w: "list_all is_space ws" "list_all is_space ws'"
    and c: "RBRACKET \<notin> set cat" "RBRACKET \<notin> set cat'"
    and l: "lvl \<in> set levels" "lvl' \<in> set levels"
    by (simp_all add: header_shape_def)
  from split_at_first [OF t eq1] have ts: "ts = ts'"
    and eq2: "ws @ LBRACKET # (cat @ SLASH # lvl @ RBRACKET # rest) =
      ws' @ LBRACKET # (cat' @ SLASH # lvl' @ RBRACKET # rest')"
    by simp_all
  from w nb have w': "LBRACKET \<notin> set ws" "LBRACKET \<notin> set ws'"
    by (auto simp: list_all_iff)
  from split_at_first [OF w' eq2] have ws: "ws = ws'"
    and eq3: "(cat @ SLASH # lvl) @ RBRACKET # rest = (cat' @ SLASH # lvl') @ RBRACKET # rest'"
    by simp_all
  from c l lv have b: "RBRACKET \<notin> set (cat @ SLASH # lvl)" "RBRACKET \<notin> set (cat' @ SLASH # lvl')"
    by (auto simp: SLASH_def RBRACKET_def)
  from split_at_first [OF b eq3] have eq4: "cat @ SLASH # lvl = cat' @ SLASH # lvl'"
    and rest: "rest = rest'"
    by simp_all
  from l lv have s: "SLASH \<notin> set lvl" "SLASH \<notin> set lvl'"
    by auto
  from split_at_last [OF s eq4] ts ws rest show ?thesis
    by simp
qed

text \<open>
  \<^verbatim>\<open>log_pattern.match(line)\<close> succeeds exactly on the lines of that anatomy, and its three
  groups are the timestamp, the category and the level.
\<close>

lemma log_pattern_match_iff:
  "log_pattern_match line = Some (ts, cat, lvl) \<longleftrightarrow> (\<exists>ws rest. header_shape line ts ws cat lvl rest)"
proof
  assume "log_pattern_match line = Some (ts, cat, lvl)"
  then obtain ms where "matches log_pattern line = [ts, cat, lvl] # ms"
    by (auto simp: log_pattern_match_def re_match_def split: list.splits option.splits)
  then have "[ts, cat, lvl] \<in> set (matches log_pattern line)"
    by simp
  then show "\<exists>ws rest. header_shape line ts ws cat lvl rest"
    by (auto simp only: in_matches_log_pattern)
next
  assume "\<exists>ws rest. header_shape line ts ws cat lvl rest"
  then obtain ws rest where h: "header_shape line ts ws cat lvl rest"
    by blast
  then have "[ts, cat, lvl] \<in> set (matches log_pattern line)"
    by (simp only: in_matches_log_pattern) blast
  then obtain m ms where ms: "matches log_pattern line = m # ms"
    by (cases "matches log_pattern line") auto
  then have "m \<in> set (matches log_pattern line)"
    by simp
  then obtain ts' ws' cat' lvl' rest' where m: "m = [ts', cat', lvl']"
    and h': "header_shape line ts' ws' cat' lvl' rest'"
    by (auto simp only: in_matches_log_pattern)
  from header_shape_unique [OF h h'] m have "m = [ts, cat, lvl]"
    by simp
  with ms show "log_pattern_match line = Some (ts, cat, lvl)"
    by (simp add: log_pattern_match_def re_match_def)
qed

lemma log_pattern_match_None_iff:
  "log_pattern_match line = None \<longleftrightarrow> (\<forall>ts ws cat lvl rest. \<not> header_shape line ts ws cat lvl rest)"
proof -
  have "log_pattern_match line \<noteq> None \<longleftrightarrow> (\<exists>ts cat lvl. log_pattern_match line = Some (ts, cat, lvl))"
    by auto
  also have "\<dots> \<longleftrightarrow> (\<exists>ts ws cat lvl rest. header_shape line ts ws cat lvl rest)"
    unfolding log_pattern_match_iff by blast
  finally show ?thesis by blast
qed

section \<open>The loop of the standalone parser\<close>

lemma parse_loop_append:
  "parse_loop i (xs @ ys) st = parse_loop (i + length xs) ys (parse_loop i xs st)"
  by (induction xs arbitrary: i st) simp_all

lemma finish_conv: "(case cur of Some e \<Rightarrow> es @ [e] | None \<Rightarrow> es) = finish (es, cur)"
  by (cases cur) simp_all

lemma finish_prefix: "finish (es0 @ es, cur) = es0 @ finish (es, cur)"
  by (cases cur) simp_all

lemma step_prefix:
  "step i line (es0 @ es, cur) = (case step i line (es, cur) of (es', c) \<Rightarrow> (es0 @ es', c))"
  by (simp split: option.splits)

lemma parse_loop_prefix:
  "parse_loop i ls (es0 @ es, cur) = (case parse_loop i ls (es, cur) of (es', c) \<Rightarrow> (es0 @ es', c))"
proof (induction ls arbitrary: i es cur)
  case Nil
  then show ?case by simp
next
  case (Cons line ls)
  obtain es' c where s: "step i line (es, cur) = (es', c)"
    by (cases "step i line (es, cur)")
  then have "step i line (es0 @ es, cur) = (es0 @ es', c)"
    by (simp only: step_prefix split: prod.splits) simp
  with s Cons.IH [of "i + 1" es' c] show ?case
    by simp
qed

lemma finish_parse_loop_prefix:
  "finish (parse_loop i ls (es0, None)) = es0 @ finish (parse_loop i ls ([], None))"
proof -
  obtain es' c where s: "parse_loop i ls ([], None) = (es', c)"
    by (cases "parse_loop i ls ([], None)")
  with parse_loop_prefix [of i ls es0 "[]" None] have "parse_loop i ls (es0, None) = (es0 @ es', c)"
    by simp
  with s show ?thesis
    by (simp add: finish_prefix)
qed

text \<open>A header line closes the open entry and opens a new one.\<close>

lemma step_header:
  assumes "log_pattern_match line = Some (ts, cat, lvl)"
  shows "step i line st =
    (finish st, Some \<lparr>line_number = i + 1, timestamp = ts, category = cat, level = lvl,
                      content = [rstrip line]\<rparr>)"
  using assms by (cases st) (simp add: finish_conv)

text \<open>Lines that are neither headers nor boundaries are appended to the open entry.\<close>

lemma parse_loop_continuations:
  assumes "\<forall>c\<in>set cs. log_pattern_match c = None \<and> \<not> is_boundary c"
  shows "parse_loop i cs (es, Some e) = (es, Some (e\<lparr>content := content e @ map rstrip cs\<rparr>))"
  using assms
proof (induction cs arbitrary: i e)
  case Nil
  then show ?case by simp
next
  case (Cons c cs)
  then have "step i c (es, Some e) = (es, Some (e\<lparr>content := content e @ [rstrip c]\<rparr>))"
    by simp
  moreover from Cons have
    "parse_loop (i + 1) cs (es, Some (e\<lparr>content := content e @ [rstrip c]\<rparr>)) =
     (es, Some (e\<lparr>content := content e @ [rstrip c], content := (content e @ [rstrip c]) @ map rstrip cs\<rparr>))"
    by simp
  ultimately show ?case by simp
qed

text \<open>A line that does not start with a bracket is neither a header nor a boundary.\<close>

lemma not_bracketed:
  assumes "\<not> startswith c [LBRACKET]"
  shows "log_pattern_match c = None \<and> \<not> is_boundary c"
proof -
  have "\<not> header_shape c ts ws cat lvl rest" for ts ws cat lvl rest
    using assms by (auto simp: header_shape_def startswith_def)
  then have "log_pattern_match c = None"
    by (simp add: log_pattern_match_None_iff)
  with assms show ?thesis
    by (simp add: is_boundary_def)
qed

lemma segment_header_continuations:
  assumes "log_pattern_match h = Some (ts, cat, lvl)"
    and "\<forall>c\<in>set cs. log_pattern_match c = None \<and> \<not> is_boundary c"
  shows "segment (pre @ h # cs) =
    segment pre @ [\<lparr>line_number = length pre + 1, timestamp = ts, category = cat, level = lvl,
                     content = map rstrip (h # cs)\<rparr>]"
proof -
  let ?st = "parse_loop 0 pre ([], None)"
  let ?e = "\<lparr>line_number = length pre + 1, timestamp = ts, category = cat, level = lvl,
             content = [rstrip h]\<rparr>"
  have "parse_loop 0 (pre @ h # cs) ([], None) = parse_loop (length pre + 1) cs (step (length pre) h ?st)"
    by (simp add: parse_loop_append)
  also have "\<dots> = parse_loop (length pre + 1) cs (finish ?st, Some ?e)"
    by (simp only: step_header [OF assms(1)])
  also have "\<dots> = (finish ?st, Some (?e\<lparr>content := content ?e @ map rstrip cs\<rparr>))"
    by (rule parse_loop_continuations [OF assms(2)])
  finally show ?thesis
    by (simp add: segment_def)
qed

text \<open>The line numbers of the entries: one for every header line, in order.\<close>

lemma step_line_numbers:
  "map line_number (finish (step i line st)) =
     map line_number (finish st) @ (if log_pattern_match line \<noteq> None then [i + 1] else [])"
  by (cases st) (auto split: option.splits)

lemma parse_loop_line_numbers:
  "map line_number (finish (parse_loop i ls st)) =
     map line_number (finish st) @
     map (\<lambda>(k, l). k + 1) (filter (\<lambda>(k, l). log_pattern_match l \<noteq> None) (enumerate i ls))"
proof (induction ls arbitrary: i st)
  case Nil
  then show ?case by simp
next
  case (Cons line ls)
  show ?case
    by (simp only: parse_loop.simps Cons.IH step_line_numbers enumerate_simps) simp
qed

text \<open>The content lines: stripped input lines, in the order of the input.\<close>

lemma step_content:
  "\<exists>ys. subseq ys [rstrip line] \<and>
     concat (map content (finish (step i line st))) = concat (map content (finish st)) @ ys"
proof (cases st)
  case (Pair es cur)
  show ?thesis
  proof (cases "log_pattern_match line")
    case None
    show ?thesis
    proof (cases cur)
      case N: None
      with Pair None have "concat (map content (finish (step i line st))) =
          concat (map content (finish st)) @ []"
        by simp
      then show ?thesis by blast
    next
      case (Some e)
      show ?thesis
      proof (cases "is_boundary line")
        case True
        with Pair None Some have "concat (map content (finish (step i line st))) =
            concat (map content (finish st)) @ []"
          by simp
        then show ?thesis by blast
      next
        case False
        with Pair None Some have "concat (map content (finish (step i line st))) =
            concat (map content (finish st)) @ [rstrip line]"
          by simp
        then show ?thesis by blast
      qed
    qed
  next
    case (Some g)
    then obtain ts cat lvl where "log_pattern_match line = Some (ts, cat, lvl)"
      by (cases g) auto
    then have "concat (map content (finish (step i line st))) =
        concat (map content (finish st)) @ [rstrip line]"
      by (simp add: step_header)
    then show ?thesis by blast
  qed
qed

lemma parse_loop_content:
  "\<exists>ys. subseq ys (map rstrip ls) \<and>
     concat (map content (finish (parse_loop i ls st))) = concat (map content (finish st)) @ ys"
proof (induction ls arbitrary: i st)
  case Nil
  then show ?case by simp
next
  case (Cons line ls)
  obtain ys where ys: "subseq ys [rstrip line]"
    "concat (map content (finish (step i line st))) = concat (map content (finish st)) @ ys"
    using step_content by blast
  obtain zs where zs: "subseq zs (map rstrip ls)"
    "concat (map content (finish (parse_loop (i + 1) ls (step i line st)))) =
       concat (map content (finish (step i line st))) @ zs"
    using Cons.IH by blast
  from ys(1) zs(1) have "subseq (ys @ zs) ([rstrip line] @ map rstrip ls)"
    by (rule list_emb_append_mono)
  with ys(2) zs(2) show ?case
    by auto
qed

text \<open>
  Every match of the header pattern has its three groups, so no \<^verbatim>\<open>match.group\<close> call
  of the loop raises, and the loop with the calls spelt out does what \<open>step\<close> and
  \<open>parse_loop\<close> say.
\<close>

lemma re_match_log_pattern_groups:
  assumes "re_match log_pattern line = Some m"
  shows "\<exists>ts cat lvl. m = [ts, cat, lvl]"
proof -
  from assms obtain ms where "matches log_pattern line = m # ms"
    by (auto simp: re_match_def split: list.splits)
  then have "m \<in> set (matches log_pattern line)"
    by simp
  then show ?thesis
    by (auto simp only: in_matches_log_pattern)
qed

lemma step_e_step: "step_e i line st = Inr (step i line st)"
proof -
  obtain es cur where st: "st = (es, cur)"
    by (cases st)
  show ?thesis
  proof (cases "re_match log_pattern line")
    case None
    then have "log_pattern_match line = None"
      by (simp add: log_pattern_match_def)
    with None st show ?thesis
      by (simp add: is_boundary_def split: option.splits)
  next
    case (Some m)
    then obtain ts cat lvl where m: "m = [ts, cat, lvl]"
      using re_match_log_pattern_groups by blast
    with Some have "log_pattern_match line = Some (ts, cat, lvl)"
      by (simp add: log_pattern_match_def)
    with Some m st show ?thesis
      by (simp add: match_group_def)
  qed
qed

lemma parse_loop_e_parse_loop: "parse_loop_e i ls st = Inr (parse_loop i ls st)"
  by (induction ls arbitrary: i st) (simp_all add: step_e_step)

text \<open>\<^verbatim>\<open>parse_log\<close> on a readable log appends the segmentation to \<^verbatim>\<open>self.entries\<close>.\<close>

lemma parse_log_Lines:
  assumes "fs (log_path self) = Some (Lines ls)"
  shows "parse_log fs out self = Inr (True, self\<lparr>entries := entries self @ segment ls\<rparr>)"
  using assms finish_parse_loop_prefix [of 0 ls "entries self"]
  by (simp add: parse_log_def path_exists_def read_lines_def parse_loop_e_parse_loop segment_def)

section \<open>Stripping a line does not change how it is classified\<close>

lemma rstrip_decomp: "\<exists>t. line = rstrip line @ t \<and> list_all is_space t"
proof -
  let ?t = "rev (takeWhile is_space (rev line))"
  have "rev (takeWhile is_space (rev line) @ dropWhile is_space (rev line)) = rstrip line @ ?t"
    unfolding rstrip_def by (rule rev_append)
  then have "line = rstrip line @ ?t"
    by simp
  moreover have "list_all is_space ?t"
    by (auto simp: list_all_iff dest: set_takeWhileD)
  ultimately show ?thesis by blast
qed

lemma rstrip_keeps:
  assumes "\<not> is_space c"
  shows "rstrip (a @ c # r) = a @ c # rstrip r"
  using assms by (simp add: rstrip_def dropWhile_append)

lemma rstrip_append_spaces:
  assumes "list_all is_space t"
  shows "rstrip (s @ t) = rstrip s"
  using assms by (simp add: rstrip_def dropWhile_append list_all_iff)

lemma not_space_brackets: "\<not> is_space LBRACKET" "\<not> is_space RBRACKET"
  by (simp_all add: is_space_def LBRACKET_def RBRACKET_def)

lemma header_shape_rstrip:
  "header_shape line ts ws cat lvl rest \<Longrightarrow> header_shape (rstrip line) ts ws cat lvl (rstrip rest)"
proof -
  assume h: "header_shape line ts ws cat lvl rest"
  then have "line = (LBRACKET # ts @ RBRACKET # ws @ LBRACKET # cat @ SLASH # lvl) @ RBRACKET # rest"
    by (simp add: header_shape_def)
  then have "rstrip line = (LBRACKET # ts @ RBRACKET # ws @ LBRACKET # cat @ SLASH # lvl) @ RBRACKET # rstrip rest"
    by (simp only: rstrip_keeps [OF not_space_brackets(2)])
  with h show ?thesis
    by (simp add: header_shape_def)
qed

lemma header_shape_extend:
  "header_shape line ts ws cat lvl rest \<Longrightarrow> header_shape (line @ t) ts ws cat lvl (rest @ t)"
  by (simp add: header_shape_def)

lemma log_pattern_match_rstrip: "log_pattern_match (rstrip line) = log_pattern_match line"
proof (cases "log_pattern_match line")
  case None
  have "\<not> header_shape (rstrip line) ts ws cat lvl rest" for ts ws cat lvl rest
  proof
    assume h: "header_shape (rstrip line) ts ws cat lvl rest"
    obtain t where "line = rstrip line @ t"
      using rstrip_decomp by blast
    with header_shape_extend [OF h, of t] have "header_shape line ts ws cat lvl (rest @ t)"
      by simp
    with None show False
      by (simp add: log_pattern_match_None_iff)
  qed
  then have "log_pattern_match (rstrip line) = None"
    by (simp only: log_pattern_match_None_iff) simp
  with None show ?thesis
    by simp
next
  case (Some g)
  obtain ts cat lvl where g: "g = (ts, cat, lvl)"
    by (cases g)
  with Some obtain ws rest where "header_shape line ts ws cat lvl rest"
    by (auto simp only: log_pattern_match_iff)
  then have "header_shape (rstrip line) ts ws cat lvl (rstrip rest)"
    by (rule header_shape_rstrip)
  then have "log_pattern_match (rstrip line) = Some (ts, cat, lvl)"
    by (simp only: log_pattern_match_iff) blast
  with Some g show ?thesis by simp
qed

lemma contains_iff: "contains sub s \<longleftrightarrow> (\<exists>a b. s = a @ sub @ b)"
proof (induction s)
  case Nil
  then show ?case by auto
next
  case (Cons x s)
  show ?case
  proof
    assume "contains sub (x # s)"
    then consider "prefix sub (x # s)" | "contains sub s"
      by auto
    then show "\<exists>a b. x # s = a @ sub @ b"
    proof cases
      case 1
      then obtain b where "x # s = [] @ sub @ b"
        by (auto simp: prefix_def)
      then show ?thesis by blast
    next
      case 2
      with Cons.IH obtain a b where "s = a @ sub @ b"
        by blast
      then have "x # s = (x # a) @ sub @ b"
        by simp
      then show ?thesis by blast
    qed
  next
    assume "\<exists>a b. x # s = a @ sub @ b"
    then obtain a b where ab: "x # s = a @ sub @ b"
      by blast
    show "contains sub (x # s)"
    proof (cases a)
      case Nil
      with ab have "prefix sub (x # s)"
        by (simp add: prefix_def)
      then show ?thesis by simp
    next
      case (Cons y a')
      with ab have "s = a' @ sub @ b"
        by simp
      with Cons.IH have "contains sub s"
        by blast
      then show ?thesis by simp
    qed
  qed
qed

lemma startswith_rstrip: "startswith (rstrip line) [LBRACKET] = startswith line [LBRACKET]"
proof (cases line)
  case Nil
  then show ?thesis by (simp add: rstrip_def)
next
  case (Cons x r)
  show ?thesis
  proof (cases "x = LBRACKET")
    case True
    with Cons rstrip_keeps [OF not_space_brackets(1), of "[]" r] show ?thesis
      by (simp add: startswith_def)
  next
    case False
    obtain t where t: "line = rstrip line @ t"
      using rstrip_decomp by blast
    have "\<not> startswith (rstrip line) [LBRACKET]"
    proof
      assume "startswith (rstrip line) [LBRACKET]"
      then obtain r' where "rstrip line = LBRACKET # r'"
        by (auto simp: startswith_def prefix_def)
      with t have "line = LBRACKET # r' @ t"
        by simp
      with Cons False show False by simp
    qed
    with Cons False show ?thesis
      by (simp add: startswith_def)
  qed
qed

lemma contains_rstrip:
  "contains [RBRACKET, SPACE, LBRACKET] (rstrip line) = contains [RBRACKET, SPACE, LBRACKET] line"
proof
  assume "contains [RBRACKET, SPACE, LBRACKET] (rstrip line)"
  then obtain a b where "rstrip line = a @ [RBRACKET, SPACE, LBRACKET] @ b"
    by (auto simp only: contains_iff)
  moreover obtain t where "line = rstrip line @ t"
    using rstrip_decomp by blast
  ultimately have "line = a @ [RBRACKET, SPACE, LBRACKET] @ (b @ t)"
    by simp
  then show "contains [RBRACKET, SPACE, LBRACKET] line"
    by (simp only: contains_iff) blast
next
  assume "contains [RBRACKET, SPACE, LBRACKET] line"
  then obtain a b where "line = a @ [RBRACKET, SPACE, LBRACKET] @ b"
    by (auto simp only: contains_iff)
  then have "line = (a @ [RBRACKET, SPACE]) @ LBRACKET # b"
    by simp
  then have "rstrip line = (a @ [RBRACKET, SPACE]) @ LBRACKET # rstrip b"
    by (simp only: rstrip_keeps [OF not_space_brackets(1)])
  then have "rstrip line = a @ [RBRACKET, SPACE, LBRACKET] @ rstrip b"
    by simp
  then show "contains [RBRACKET, SPACE, LBRACKET] (rstrip line)"
    by (simp only: contains_iff) blast
qed

lemma is_boundary_rstrip: "is_boundary (rstrip line) = is_boundary line"
  by (simp add: is_boundary_def startswith_rstrip contains_rstrip)

section \<open>The three loops side by side\<close>

lemma r_step_eq: "r_step i line st = step i line st"
  by (cases st) (auto simp: is_boundary_def split: option.splits)

lemma r_parse_loop_eq: "r_parse_loop i ls st = parse_loop i ls st"
  by (induction ls arbitrary: i st) (simp_all add: r_step_eq)

lemma t_step_common:
  "(case t_step ci i line (msgs, es, cur) of (msgs', es', cur') \<Rightarrow>
      (map common_fields es', map_option common_fields cur')) =
   step i line (map common_fields es, map_option common_fields cur)"
  by (cases cur; cases "log_pattern_match line")
    (auto simp: Let_def log_pattern_match_rstrip is_boundary_rstrip [unfolded is_boundary_def]
      is_boundary_def common_fields_def)

lemma t_parse_loop_common:
  "(case t_parse_loop ci i ls (msgs, es, cur) of (msgs', es', cur') \<Rightarrow>
      (map common_fields es', map_option common_fields cur')) =
   parse_loop i ls (map common_fields es, map_option common_fields cur)"
proof (induction ls arbitrary: i msgs es cur)
  case Nil
  then show ?case by simp
next
  case (Cons line ls)
  obtain msgs' es' cur' where s: "t_step ci i line (msgs, es, cur) = (msgs', es', cur')"
    by (cases "t_step ci i line (msgs, es, cur)")
  with t_step_common [of ci i line msgs es cur]
  have "step i line (map common_fields es, map_option common_fields cur) =
      (map common_fields es', map_option common_fields cur')"
    by simp
  with s Cons.IH [of "i + 1" msgs' es' cur'] show ?case
    by simp
qed

lemma t_finish_common:
  "map common_fields (snd (t_finish (msgs, es, cur))) =
     finish (map common_fields es, map_option common_fields cur)"
  by (cases cur) simp_all

section \<open>The tooling parser: messages and flags\<close>

lemma t_step_messages:
  "fst (t_step ci i line (msgs, es, cur)) =
     msgs @ (if biomepruner_search ci (rstrip line)
             then [\<lparr>m_line_number = i + 1, m_content = rstrip line\<rparr>] else [])"
  by (simp add: Let_def split: option.splits)

lemma t_parse_loop_messages:
  "fst (t_parse_loop ci i ls (msgs, es, cur)) =
     msgs @ map (\<lambda>(k, l). \<lparr>m_line_number = k + 1, m_content = rstrip l\<rparr>)
       (filter (\<lambda>(k, l). biomepruner_search ci (rstrip l)) (enumerate i ls))"
proof (induction ls arbitrary: i msgs es cur)
  case Nil
  then show ?case by simp
next
  case (Cons line ls)
  obtain msgs' es' cur' where s: "t_step ci i line (msgs, es, cur) = (msgs', es', cur')"
    by (cases "t_step ci i line (msgs, es, cur)")
  with t_step_messages [of ci i line msgs es cur]
  have m: "msgs' = msgs @ (if biomepruner_search ci (rstrip line)
             then [\<lparr>m_line_number = i + 1, m_content = rstrip line\<rparr>] else [])"
    by simp
  have "fst (t_parse_loop ci i (line # ls) (msgs, es, cur)) =
      fst (t_parse_loop ci (i + 1) ls (msgs', es', cur'))"
    using s by simp
  also have "\<dots> = msgs' @ map (\<lambda>(k, l). \<lparr>m_line_number = k + 1, m_content = rstrip l\<rparr>)
       (filter (\<lambda>(k, l). biomepruner_search ci (rstrip l)) (enumerate (i + 1) ls))"
    by (rule Cons.IH)
  finally show ?case
    using m by simp
qed

lemma t_step_flags:
  assumes "flags_ok ci st"
  shows "flags_ok ci (t_step ci i line st)"
proof -
  obtain msgs es cur where st: "st = (msgs, es, cur)"
    by (cases st)
  show ?thesis
  proof (cases cur)
    case None
    with assms st show ?thesis
      by (auto simp: Let_def flag_ok_def split: option.splits)
  next
    case (Some e)
    with assms st show ?thesis
      by (auto simp: Let_def flag_ok_def split: option.splits)
  qed
qed

lemma t_parse_loop_flags:
  assumes "flags_ok ci st"
  shows "flags_ok ci (t_parse_loop ci i ls st)"
  using assms
proof (induction ls arbitrary: i st)
  case Nil
  then show ?case by simp
next
  case (Cons line ls)
  from Cons.prems have "flags_ok ci (t_step ci i line st)"
    by (rule t_step_flags)
  then show ?case
    by (simp add: Cons.IH)
qed

lemma t_finish_flags:
  assumes "flags_ok ci st"
  shows "list_all (flag_ok ci) (snd (t_finish st))"
proof -
  obtain msgs es cur where "st = (msgs, es, cur)"
    by (cases st)
  with assms show ?thesis
    by (cases cur) simp_all
qed

text \<open>Searching the stripped line or the raw line.\<close>

lemma match_ci_append: "match_ci ci w t \<Longrightarrow> match_ci ci w (t @ u)"
  by (induction ci w t rule: match_ci.induct) simp_all

lemma match_ci_split:
  "match_ci ci w t \<Longrightarrow> \<exists>m b. t = m @ b \<and> length m = length w \<and> match_ci ci w m"
proof (induction ci w t rule: match_ci.induct)
  case (1 ci s)
  then show ?case by simp
next
  case (2 ci p ps)
  then show ?case by simp
next
  case (3 ci p ps x xs)
  then obtain m b where "xs = m @ b" "length m = length ps" "match_ci ci ps m"
    by auto
  with 3 have "x # xs = (x # m) @ b \<and> length (x # m) = length (p # ps) \<and> match_ci ci (p # ps) (x # m)"
    by simp
  then show ?case by blast
qed

lemma match_ci_last:
  "match_ci ci w m \<Longrightarrow> length m = length w \<Longrightarrow> w \<noteq> [] \<Longrightarrow> m \<noteq> [] \<and> ci (last w) (last m)"
proof (induction ci w m rule: match_ci.induct)
  case (1 ci s)
  then show ?case by simp
next
  case (2 ci p ps)
  then show ?case by simp
next
  case (3 ci p ps x xs)
  then show ?case by (cases ps; cases xs) auto
qed

lemma search_ci_iff:
  "search_ci ci ws s \<longleftrightarrow> (\<exists>a t. s = a @ t \<and> list_ex (\<lambda>w. match_ci ci w t) ws)"
proof (induction s)
  case Nil
  then show ?case by simp
next
  case (Cons x s)
  show ?case
  proof
    assume "search_ci ci ws (x # s)"
    then consider "list_ex (\<lambda>w. match_ci ci w (x # s)) ws" | "search_ci ci ws s"
      by auto
    then show "\<exists>a t. x # s = a @ t \<and> list_ex (\<lambda>w. match_ci ci w t) ws"
    proof cases
      case 1
      then have "x # s = [] @ (x # s) \<and> list_ex (\<lambda>w. match_ci ci w (x # s)) ws"
        by simp
      then show ?thesis by blast
    next
      case 2
      with Cons.IH obtain a t where "s = a @ t" "list_ex (\<lambda>w. match_ci ci w t) ws"
        by blast
      then have "x # s = (x # a) @ t \<and> list_ex (\<lambda>w. match_ci ci w t) ws"
        by simp
      then show ?thesis by blast
    qed
  next
    assume "\<exists>a t. x # s = a @ t \<and> list_ex (\<lambda>w. match_ci ci w t) ws"
    then obtain a t where at: "x # s = a @ t" "list_ex (\<lambda>w. match_ci ci w t) ws"
      by blast
    show "search_ci ci ws (x # s)"
    proof (cases a)
      case Nil
      with at have "t = x # s"
        by simp
      with at(2) have "list_ex (\<lambda>w. match_ci ci w (x # s)) ws"
        by simp
      then show ?thesis by simp
    next
      case (Cons y a')
      with at have "s = a' @ t"
        by simp
      with at(2) Cons.IH have "search_ci ci ws s"
        by blast
      then show ?thesis by simp
    qed
  qed
qed

lemma search_ci_rstrip:
  assumes "\<forall>w\<in>set ws. w \<noteq> [] \<and> (\<forall>x. is_space x \<longrightarrow> \<not> ci (last w) x)"
  shows "search_ci ci ws (rstrip line) = search_ci ci ws line"
proof
  assume "search_ci ci ws (rstrip line)"
  then obtain a t w where 1: "rstrip line = a @ t" "w \<in> set ws" "match_ci ci w t"
    by (auto simp: search_ci_iff list_ex_iff)
  obtain u where "line = rstrip line @ u"
    using rstrip_decomp by blast
  with 1 have "line = a @ (t @ u)" "match_ci ci w (t @ u)"
    by (simp_all add: match_ci_append)
  with 1(2) show "search_ci ci ws line"
    unfolding search_ci_iff list_ex_iff by blast
next
  assume "search_ci ci ws line"
  then obtain a t w where 1: "line = a @ t" "w \<in> set ws" "match_ci ci w t"
    by (auto simp: search_ci_iff list_ex_iff)
  from match_ci_split [OF 1(3)] obtain m b where 2: "t = m @ b" "length m = length w" "match_ci ci w m"
    by blast
  from assms 1(2) have w: "w \<noteq> []" "\<And>x. is_space x \<Longrightarrow> \<not> ci (last w) x"
    by auto
  from match_ci_last [OF 2(3) 2(2) w(1)] have m: "m \<noteq> []" "ci (last w) (last m)"
    by simp_all
  with w(2) have ns: "\<not> is_space (last m)"
    by blast
  from m(1) have "m = butlast m @ [last m]"
    by simp
  with 1(1) 2(1) have "line = (a @ butlast m) @ last m # b"
    by (metis append_assoc append_Cons append_Nil)
  then have "rstrip line = (a @ butlast m) @ last m # rstrip b"
    by (simp only: rstrip_keeps [OF ns])
  with m(1) have "rstrip line = a @ (m @ rstrip b)"
    by simp
  moreover from 2(3) have "match_ci ci w (m @ rstrip b)"
    by (rule match_ci_append)
  ultimately show "search_ci ci ws (rstrip line)"
    using 1(2) unfolding search_ci_iff list_ex_iff by blast
qed

lemma biomepruner_search_rstrip:
  assumes "\<forall>x. is_space x \<longrightarrow> \<not> ci LOWER_R x"
  shows "biomepruner_search ci (rstrip line) = biomepruner_search ci line"
  unfolding biomepruner_search_def
proof (rule search_ci_rstrip)
  have "last (ustr ''biomepruner'') = LOWER_R" "last (ustr ''BiomePruner'') = LOWER_R"
    by (simp_all add: ustr_def LOWER_R_def)
  moreover have "ustr ''biomepruner'' \<noteq> []" "ustr ''BiomePruner'' \<noteq> []"
    by (simp_all add: ustr_def)
  ultimately show "\<forall>w\<in>set [ustr ''biomepruner'', ustr ''BiomePruner''].
      w \<noteq> [] \<and> (\<forall>x. is_space x \<longrightarrow> \<not> ci (last w) x)"
    using assms by simp
qed

section \<open>Evaluation of the definitions on concrete lines\<close>

lemmas concrete_defs =
  log_pattern_match_def re_match_def log_pattern_def levels_def ustr_def
  LBRACKET_def RBRACKET_def SLASH_def SPACE_def is_space_def rstrip_def startswith_def
  is_boundary_def segment_def

section \<open>The claims\<close>

text \<open>
  C1: the entries are opened by exactly the lines the header pattern matches (the
  line numbers of the entries are the 1-based positions of those lines, in order),
  and the pattern matches exactly the lines that start with a bracketed span
  \<^verbatim>\<open>[ts]\<close> capturing the timestamp, with the second bracketed span \<^verbatim>\<open>[cat/LEVEL]\<close>
  next to it, nothing but whitespace between the two (the header lines of the
  specification have one space there), LEVEL being one of WARN, ERROR, FATAL; so a
  line with any other level opens no entry.  A span's content is what stands before
  the first \<^verbatim>\<open>]\<close>, and it is not empty.
\<close>

theorem header_opens_entry:
  "map line_number (segment ls) =
     map (\<lambda>(k, l). k + 1) (filter (\<lambda>(k, l). log_pattern_match l \<noteq> None) (enumerate 0 ls)) \<and>
   (log_pattern_match line \<noteq> None \<longleftrightarrow>
     (\<exists>ts ws cat lvl rest.
        line = LBRACKET # ts @ RBRACKET # ws @ LBRACKET # cat @ SLASH # lvl @ RBRACKET # rest \<and>
        ts \<noteq> [] \<and> RBRACKET \<notin> set ts \<and> list_all is_space ws \<and>
        cat \<noteq> [] \<and> RBRACKET \<notin> set cat \<and> lvl \<in> set levels))"
proof
  show "map line_number (segment ls) =
     map (\<lambda>(k, l). k + 1) (filter (\<lambda>(k, l). log_pattern_match l \<noteq> None) (enumerate 0 ls))"
    using parse_loop_line_numbers [of 0 ls "([], None)"] by (simp add: segment_def)
next
  have "log_pattern_match line \<noteq> None \<longleftrightarrow>
      (\<exists>ts ws cat lvl rest. header_shape line ts ws cat lvl rest)"
    by (simp add: log_pattern_match_None_iff)
  then show "log_pattern_match line \<noteq> None \<longleftrightarrow>
     (\<exists>ts ws cat lvl rest.
        line = LBRACKET # ts @ RBRACKET # ws @ LBRACKET # cat @ SLASH # lvl @ RBRACKET # rest \<and>
        ts \<noteq> [] \<and> RBRACKET \<notin> set ts \<and> list_all is_space ws \<and>
        cat \<noteq> [] \<and> RBRACKET \<notin> set cat \<and> lvl \<in> set levels)"
    by (simp only: header_shape_def)
qed

theorem header_opens_entry_witness:
  "map line_number (segment [ustr ''[1] [A/WARN] x'', ustr ''[2] [A/INFO] y'', ustr ''[3][B/FATAL]'']) =
     [1, 3]"
  using header_opens_entry [of "[ustr ''[1] [A/WARN] x'', ustr ''[2] [A/INFO] y'', ustr ''[3][B/FATAL]'']"]
  by (simp add: concrete_defs)

text \<open>
  C2: when an entry is open and the next line does not match the header pattern but
  begins with \<^verbatim>\<open>[\<close> and contains \<^verbatim>\<open>] [\<close>, the loop appends the open entry to the
  output as it is and leaves no entry open; the output for the whole input is that
  entry followed by the entries of the remaining lines alone, so the line is in no
  entry's content and opens no entry.
\<close>

theorem boundary_line_closes_entry:
  assumes "parse_loop 0 pre ([], None) = (es, Some e)"
    and "log_pattern_match b = None"
    and "startswith b [LBRACKET] \<and> contains [RBRACKET, SPACE, LBRACKET] b"
  shows "parse_loop 0 (pre @ [b]) ([], None) = (es @ [e], None) \<and>
    segment (pre @ b # rest) = es @ [e] @ finish (parse_loop (length pre + 1) rest ([], None))"
proof -
  from assms have s: "step (length pre) b (es, Some e) = (es @ [e], None)"
    by (simp add: is_boundary_def)
  with assms(1) have 1: "parse_loop 0 (pre @ [b]) ([], None) = (es @ [e], None)"
    by (simp add: parse_loop_append)
  have "parse_loop 0 (pre @ b # rest) ([], None) =
      parse_loop (length pre + 1) rest (step (length pre) b (parse_loop 0 pre ([], None)))"
    by (simp add: parse_loop_append)
  with assms(1) s have "segment (pre @ b # rest) =
      finish (parse_loop (length pre + 1) rest (es @ [e], None))"
    by (simp add: segment_def)
  with 1 show ?thesis
    by (simp add: finish_parse_loop_prefix [of _ _ "es @ [e]"])
qed

theorem boundary_line_closes_entry_witness:
  "parse_loop 0 [ustr ''[12:00:00] [Server/WARN] test''] ([], None) =
     ([], Some \<lparr>line_number = 1, timestamp = ustr ''12:00:00'', category = ustr ''Server'',
                level = ustr ''WARN'', content = [ustr ''[12:00:00] [Server/WARN] test'']\<rparr>) \<and>
   log_pattern_match (ustr ''[12:00:05] [Server/INFO] hi'') = None \<and>
   startswith (ustr ''[12:00:05] [Server/INFO] hi'') [LBRACKET] \<and>
   contains [RBRACKET, SPACE, LBRACKET] (ustr ''[12:00:05] [Server/INFO] hi'') \<and>
   segment [ustr ''[12:00:00] [Server/WARN] test'', ustr ''[12:00:05] [Server/INFO] hi'',
            ustr ''tail''] =
     [\<lparr>line_number = 1, timestamp = ustr ''12:00:00'', category = ustr ''Server'',
       level = ustr ''WARN'', content = [ustr ''[12:00:00] [Server/WARN] test'']\<rparr>]"
proof -
  let ?h = "ustr ''[12:00:00] [Server/WARN] test''"
  let ?b = "ustr ''[12:00:05] [Server/INFO] hi''"
  let ?e = "\<lparr>line_number = 1, timestamp = ustr ''12:00:00'', category = ustr ''Server'',
             level = ustr ''WARN'', content = [?h]\<rparr>"
  have 1: "parse_loop 0 [?h] ([], None) = ([], Some ?e)"
    by (simp add: concrete_defs)
  have 2: "log_pattern_match ?b = None"
    by (simp add: concrete_defs)
  have 3: "startswith ?b [LBRACKET] \<and> contains [RBRACKET, SPACE, LBRACKET] ?b"
    by (simp add: concrete_defs)
  have 4: "finish (parse_loop (length [?h] + 1) [ustr ''tail''] ([], None)) = []"
    by (simp add: concrete_defs)
  from boundary_line_closes_entry [OF 1 2 3, of "[ustr ''tail'']"]
  have "segment ([?h] @ ?b # [ustr ''tail'']) =
      [] @ [?e] @ finish (parse_loop (length [?h] + 1) [ustr ''tail''] ([], None))"
    by (rule conjunct2)
  then have "segment ([?h] @ ?b # [ustr ''tail'']) = [] @ [?e] @ []"
    by (simp only: 4)
  then have "segment [?h, ?b, ustr ''tail''] = [?e]"
    by (simp only: append_Nil append_Nil2 append_Cons)
  with 1 2 3 show ?thesis
    by (simp only: simp_thms)
qed

text \<open>
  C3, as stated: the content lines, concatenated, are a subsequence of the original
  lines.  Every stored line is \<^verbatim>\<open>line.rstrip()\<close>, so for a header line that ends with
  its line terminator (code point 10) the stored line is not among the original
  lines.
\<close>

theorem content_subsequence_counterexample:
  "\<not> subseq (concat (map content (segment [ustr ''[t] [A/WARN] x'' @ [10]])))
     [ustr ''[t] [A/WARN] x'' @ [10]]"
  by (simp add: concrete_defs)

text \<open>
  C3, amended: the content lines of all entries, concatenated in output order, are a
  subsequence of the original lines with their trailing whitespace stripped, in the
  original order: no line is reordered, none is used twice, and the ignored lines are
  the ones left out.
\<close>

theorem content_subsequence_of_stripped_lines:
  "subseq (concat (map content (segment ls))) (map rstrip ls)"
  using parse_loop_content [of ls 0 "([], None)"] by (auto simp: segment_def)

theorem content_subsequence_of_stripped_lines_witness:
  "concat (map content (segment
     [ustr ''skipped'', ustr ''[1] [A/WARN] x '', ustr '' y'' @ [10], ustr ''[2] [A/INFO] z'',
      ustr ''[3] [B/ERROR] v''])) =
     [ustr ''[1] [A/WARN] x'', ustr '' y'', ustr ''[3] [B/ERROR] v''] \<and>
   subseq [ustr ''[1] [A/WARN] x'', ustr '' y'', ustr ''[3] [B/ERROR] v'']
     (map rstrip [ustr ''skipped'', ustr ''[1] [A/WARN] x '', ustr '' y'' @ [10],
        ustr ''[2] [A/INFO] z'', ustr ''[3] [B/ERROR] v''])"
proof -
  let ?ls = "[ustr ''skipped'', ustr ''[1] [A/WARN] x '', ustr '' y'' @ [10],
      ustr ''[2] [A/INFO] z'', ustr ''[3] [B/ERROR] v'']"
  have "concat (map content (segment ?ls)) =
      [ustr ''[1] [A/WARN] x'', ustr '' y'', ustr ''[3] [B/ERROR] v'']"
    by (simp add: concrete_defs)
  with content_subsequence_of_stripped_lines [of ?ls] show ?thesis
    by (simp only: simp_thms)
qed

text \<open>
  C4, as stated: a second invocation of \<^verbatim>\<open>parse_log\<close> on identical input produces the
  same entry sequence as the first, no state being kept between calls.  The parser
  object keeps \<^verbatim>\<open>self.entries\<close>: the first call on a fresh parser leaves the one
  entry of a one-line log, the second call on the object the first one left leaves
  that entry twice.
\<close>

theorem parse_log_twice_counterexample:
  "parse_log (\<lambda>p. Some (Lines [ustr ''[t] [A/WARN] x''])) True (init []) =
     Inr (True, \<lparr>log_path = [],
                 entries = [\<lparr>line_number = 1, timestamp = ustr ''t'', category = ustr ''A'',
                             level = ustr ''WARN'', content = [ustr ''[t] [A/WARN] x'']\<rparr>]\<rparr>) \<and>
   parse_log (\<lambda>p. Some (Lines [ustr ''[t] [A/WARN] x''])) True
     \<lparr>log_path = [],
      entries = [\<lparr>line_number = 1, timestamp = ustr ''t'', category = ustr ''A'',
                  level = ustr ''WARN'', content = [ustr ''[t] [A/WARN] x'']\<rparr>]\<rparr> =
     Inr (True, \<lparr>log_path = [],
                 entries = [\<lparr>line_number = 1, timestamp = ustr ''t'', category = ustr ''A'',
                             level = ustr ''WARN'', content = [ustr ''[t] [A/WARN] x'']\<rparr>,
                            \<lparr>line_number = 1, timestamp = ustr ''t'', category = ustr ''A'',
                             level = ustr ''WARN'', content = [ustr ''[t] [A/WARN] x'']\<rparr>]\<rparr>) \<and>
   [\<lparr>line_number = 1, timestamp = ustr ''t'', category = ustr ''A'',
     level = ustr ''WARN'', content = [ustr ''[t] [A/WARN] x'']\<rparr>,
    \<lparr>line_number = 1, timestamp = ustr ''t'', category = ustr ''A'',
     level = ustr ''WARN'', content = [ustr ''[t] [A/WARN] x'']\<rparr>] \<noteq>
   [\<lparr>line_number = 1, timestamp = ustr ''t'', category = ustr ''A'',
     level = ustr ''WARN'', content = [ustr ''[t] [A/WARN] x'']\<rparr>]"
  by (simp add: concrete_defs parse_log_def path_exists_def read_lines_def match_group_def init_def)

text \<open>
  C4, amended: segmentation is deterministic, the entries of a freshly constructed
  parser being a function of the line sequence alone; the parser object keeps its
  entries between calls, each \<^verbatim>\<open>parse_log\<close> appending the segmentation of the lines to
  the entries already there, so a second call on the same object (the object the
  first call left) and input leaves the entry sequence twice.
\<close>

theorem parse_log_appends:
  assumes "fs (log_path self) = Some (Lines ls)"
  shows "parse_log fs out (init (log_path self)) =
      Inr (True, (init (log_path self))\<lparr>entries := segment ls\<rparr>) \<and>
    parse_log fs out self = Inr (True, self\<lparr>entries := entries self @ segment ls\<rparr>) \<and>
    parse_log fs out (self\<lparr>entries := entries self @ segment ls\<rparr>) =
      Inr (True, self\<lparr>entries := entries self @ segment ls @ segment ls\<rparr>)"
proof -
  from assms have 0: "fs (log_path (init (log_path self))) = Some (Lines ls)"
    by (simp add: init_def)
  have 1: "parse_log fs out self = Inr (True, self\<lparr>entries := entries self @ segment ls\<rparr>)"
    using assms by (rule parse_log_Lines)
  from assms have 2: "fs (log_path (self\<lparr>entries := entries self @ segment ls\<rparr>)) = Some (Lines ls)"
    by simp
  have 3: "parse_log fs out (self\<lparr>entries := entries self @ segment ls\<rparr>) =
      Inr (True, self\<lparr>entries := entries self @ segment ls,
                       entries := entries (self\<lparr>entries := entries self @ segment ls\<rparr>) @ segment ls\<rparr>)"
    using 2 by (rule parse_log_Lines)
  have 4: "parse_log fs out (init (log_path self)) =
      Inr (True, (init (log_path self))\<lparr>entries := entries (init (log_path self)) @ segment ls\<rparr>)"
    using 0 by (rule parse_log_Lines)
  from 1 3 4 show ?thesis
    by (simp add: init_def)
qed

theorem parse_log_appends_witness:
  "parse_log (\<lambda>p. Some (Lines [ustr ''[t] [A/WARN] x''])) True (init []) =
     Inr (True, (init [])\<lparr>entries := segment [ustr ''[t] [A/WARN] x'']\<rparr>) \<and>
   parse_log (\<lambda>p. Some (Lines [ustr ''[t] [A/WARN] x''])) True
     ((init [])\<lparr>entries := segment [ustr ''[t] [A/WARN] x'']\<rparr>) =
     Inr (True, (init [])\<lparr>entries := segment [ustr ''[t] [A/WARN] x''] @
                                       segment [ustr ''[t] [A/WARN] x'']\<rparr>) \<and>
   segment [ustr ''[t] [A/WARN] x''] =
     [\<lparr>line_number = 1, timestamp = ustr ''t'', category = ustr ''A'',
       level = ustr ''WARN'', content = [ustr ''[t] [A/WARN] x'']\<rparr>]"
proof -
  let ?fs = "\<lambda>p :: path. Some (Lines [ustr ''[t] [A/WARN] x''])"
  have h: "?fs (log_path (init [])) = Some (Lines [ustr ''[t] [A/WARN] x''])"
    by simp
  have s: "segment [ustr ''[t] [A/WARN] x''] =
     [\<lparr>line_number = 1, timestamp = ustr ''t'', category = ustr ''A'',
       level = ustr ''WARN'', content = [ustr ''[t] [A/WARN] x'']\<rparr>]"
    by (simp add: concrete_defs)
  have i: "entries (init []) = []" "log_path (init []) = []"
    by (simp_all add: init_def)
  note t = parse_log_appends [where fs = ?fs and self = "init []"
      and ls = "[ustr ''[t] [A/WARN] x'']" and out = True, OF h]
  from t have 1: "parse_log ?fs True (init []) =
      Inr (True, (init [])\<lparr>entries := segment [ustr ''[t] [A/WARN] x'']\<rparr>)"
    by (simp add: i)
  from t have 2: "parse_log ?fs True ((init [])\<lparr>entries := segment [ustr ''[t] [A/WARN] x'']\<rparr>) =
      Inr (True, (init [])\<lparr>entries := segment [ustr ''[t] [A/WARN] x''] @
                                        segment [ustr ''[t] [A/WARN] x'']\<rparr>)"
    by (simp add: i)
  from 1 2 s show ?thesis
    by (simp only: simp_thms)
qed




text \<open>
  C6: the tooling parser collects, whatever entries are open or closed, every line
  whose stripped text the case-insensitive filter finds, with its 1-based line number
  and stripped content, in input order; header lines, continuation lines, boundary
  lines and ignored lines are scanned alike.  The filter is applied to the stripped
  line; when no whitespace character matches the letter the filter's words end with,
  that is the same as applying it to the raw line.
\<close>

theorem biomepruner_messages_scan_all_lines:
  "fst (t_parse_loop ci 0 ls ([], es, cur)) =
     map (\<lambda>(k, l). \<lparr>m_line_number = k + 1, m_content = rstrip l\<rparr>)
       (filter (\<lambda>(k, l). biomepruner_search ci (rstrip l)) (enumerate 0 ls)) \<and>
   ((\<forall>x. is_space x \<longrightarrow> \<not> ci LOWER_R x) \<longrightarrow>
      biomepruner_search ci (rstrip line) = biomepruner_search ci line)"
  using t_parse_loop_messages [of ci 0 ls "[]" es cur] biomepruner_search_rstrip [of ci line]
  by simp

theorem biomepruner_messages_scan_all_lines_witness:
  "\<not> (\<exists>x. is_space x \<and> ascii_ci LOWER_R x) \<and>
   fst (t_parse_loop ascii_ci 0
     [ustr ''biomepruner boot'', ustr ''[1] [A/WARN] x'', ustr ''[2] [A/INFO] BIOMEPRUNER up '']
     ([], [], None)) =
     [\<lparr>m_line_number = 1, m_content = ustr ''biomepruner boot''\<rparr>,
      \<lparr>m_line_number = 3, m_content = ustr ''[2] [A/INFO] BIOMEPRUNER up''\<rparr>] \<and>
   biomepruner_search ascii_ci (rstrip (ustr ''[2] [A/INFO] BIOMEPRUNER up '')) =
     biomepruner_search ascii_ci (ustr ''[2] [A/INFO] BIOMEPRUNER up '')"
proof -
  let ?ls = "[ustr ''biomepruner boot'', ustr ''[1] [A/WARN] x'', ustr ''[2] [A/INFO] BIOMEPRUNER up '']"
  have h: "\<forall>x. is_space x \<longrightarrow> \<not> ascii_ci LOWER_R x"
    by (auto simp: is_space_def ascii_ci_def ascii_lower_def LOWER_R_def split: if_splits)
  have e: "map (\<lambda>(k, l). \<lparr>m_line_number = k + 1, m_content = rstrip l\<rparr>)
       (filter (\<lambda>(k, l). biomepruner_search ascii_ci (rstrip l)) (enumerate 0 ?ls)) =
     [\<lparr>m_line_number = 1, m_content = ustr ''biomepruner boot''\<rparr>,
      \<lparr>m_line_number = 3, m_content = ustr ''[2] [A/INFO] BIOMEPRUNER up''\<rparr>]"
    by (simp add: biomepruner_search_def ustr_def ascii_ci_def ascii_lower_def rstrip_def is_space_def)
  note t = biomepruner_messages_scan_all_lines [of ascii_ci ?ls "[]" None
      "ustr ''[2] [A/INFO] BIOMEPRUNER up ''"]
  from t have 1: "fst (t_parse_loop ascii_ci 0 ?ls ([], [], None)) =
      map (\<lambda>(k, l). \<lparr>m_line_number = k + 1, m_content = rstrip l\<rparr>)
       (filter (\<lambda>(k, l). biomepruner_search ascii_ci (rstrip l)) (enumerate 0 ?ls))"
    by (rule conjunct1)
  from t h have 2: "biomepruner_search ascii_ci (rstrip (ustr ''[2] [A/INFO] BIOMEPRUNER up '')) =
     biomepruner_search ascii_ci (ustr ''[2] [A/INFO] BIOMEPRUNER up '')"
    by blast
  from 1 e have 3: "fst (t_parse_loop ascii_ci 0 ?ls ([], [], None)) =
     [\<lparr>m_line_number = 1, m_content = ustr ''biomepruner boot''\<rparr>,
      \<lparr>m_line_number = 3, m_content = ustr ''[2] [A/INFO] BIOMEPRUNER up''\<rparr>]"
    by (simp only:)
  from h have "\<not> (\<exists>x. is_space x \<and> ascii_ci LOWER_R x)"
    by blast
  with 2 3 show ?thesis
    by (simp only: simp_thms)
qed

text \<open>
  C7: every entry the tooling parser produces has \<^verbatim>\<open>is_biomepruner\<close> set if and only if
  the filter finds one of its content lines (the opening line or a continuation line
  appended later); a boundary line closes the open entry with its flag unchanged,
  whether or not the filter finds the boundary line.
\<close>

theorem is_biomepruner_iff_content_matches:
  "(\<forall>e\<in>set (t_segment ci ls).
      is_biomepruner e = (\<exists>l\<in>set (t_content e). biomepruner_search ci l)) \<and>
   (log_pattern_match (rstrip b) = None \<and> startswith (rstrip b) [LBRACKET] \<and>
    contains [RBRACKET, SPACE, LBRACKET] (rstrip b) \<longrightarrow>
      snd (t_step ci i b (msgs, es, Some e0)) = (es @ [e0], None))"
proof
  have "flags_ok ci ([], [], None)"
    by simp
  then have "flags_ok ci (t_parse_loop ci 0 ls ([], [], None))"
    by (rule t_parse_loop_flags)
  then have "list_all (flag_ok ci) (t_segment ci ls)"
    unfolding t_segment_def by (rule t_finish_flags)
  then show "\<forall>e\<in>set (t_segment ci ls).
      is_biomepruner e = (\<exists>l\<in>set (t_content e). biomepruner_search ci l)"
    by (simp add: list_all_iff flag_ok_def list_ex_iff)
next
  show "log_pattern_match (rstrip b) = None \<and> startswith (rstrip b) [LBRACKET] \<and>
    contains [RBRACKET, SPACE, LBRACKET] (rstrip b) \<longrightarrow>
      snd (t_step ci i b (msgs, es, Some e0)) = (es @ [e0], None)"
    by (simp add: Let_def)
qed

theorem is_biomepruner_iff_content_matches_witness:
  "t_segment ascii_ci [ustr ''[1] [A/WARN] x'', ustr ''  BiomePruner: y '',
      ustr ''[2] [A/INFO] BIOMEPRUNER up'', ustr ''[3] [B/ERROR] z''] =
     [\<lparr>t_line_number = 1, t_timestamp = ustr ''1'', thread_category = ustr ''A'',
       t_level = ustr ''WARN'', t_content = [ustr ''[1] [A/WARN] x'', ustr ''  BiomePruner: y''],
       is_biomepruner = True\<rparr>,
      \<lparr>t_line_number = 4, t_timestamp = ustr ''3'', thread_category = ustr ''B'',
       t_level = ustr ''ERROR'', t_content = [ustr ''[3] [B/ERROR] z''],
       is_biomepruner = False\<rparr>] \<and>
   list_all (\<lambda>e. is_biomepruner e = list_ex (biomepruner_search ascii_ci) (t_content e))
     (t_segment ascii_ci [ustr ''[1] [A/WARN] x'', ustr ''  BiomePruner: y '',
      ustr ''[2] [A/INFO] BIOMEPRUNER up'', ustr ''[3] [B/ERROR] z'']) \<and>
   log_pattern_match (rstrip (ustr ''[2] [A/INFO] BIOMEPRUNER up'')) = None \<and>
   startswith (rstrip (ustr ''[2] [A/INFO] BIOMEPRUNER up'')) [LBRACKET] \<and>
   contains [RBRACKET, SPACE, LBRACKET] (rstrip (ustr ''[2] [A/INFO] BIOMEPRUNER up'')) \<and>
   biomepruner_search ascii_ci (rstrip (ustr ''[2] [A/INFO] BIOMEPRUNER up'')) \<and>
   snd (t_step ascii_ci 1 (ustr ''[2] [A/INFO] BIOMEPRUNER up'')
     ([], [], Some \<lparr>t_line_number = 1, t_timestamp = ustr ''1'', thread_category = ustr ''A'',
                     t_level = ustr ''WARN'', t_content = [ustr ''[1] [A/WARN] x''],
                     is_biomepruner = False\<rparr>)) =
     ([\<lparr>t_line_number = 1, t_timestamp = ustr ''1'', thread_category = ustr ''A'',
        t_level = ustr ''WARN'', t_content = [ustr ''[1] [A/WARN] x''],
        is_biomepruner = False\<rparr>], None)"
proof -
  let ?ls = "[ustr ''[1] [A/WARN] x'', ustr ''  BiomePruner: y '',
      ustr ''[2] [A/INFO] BIOMEPRUNER up'', ustr ''[3] [B/ERROR] z'']"
  let ?b = "ustr ''[2] [A/INFO] BIOMEPRUNER up''"
  let ?e0 = "\<lparr>t_line_number = 1, t_timestamp = ustr ''1'', thread_category = ustr ''A'',
      t_level = ustr ''WARN'', t_content = [ustr ''[1] [A/WARN] x''], is_biomepruner = False\<rparr>"
  have 1: "t_segment ascii_ci ?ls =
     [\<lparr>t_line_number = 1, t_timestamp = ustr ''1'', thread_category = ustr ''A'',
       t_level = ustr ''WARN'', t_content = [ustr ''[1] [A/WARN] x'', ustr ''  BiomePruner: y''],
       is_biomepruner = True\<rparr>,
      \<lparr>t_line_number = 4, t_timestamp = ustr ''3'', thread_category = ustr ''B'',
       t_level = ustr ''ERROR'', t_content = [ustr ''[3] [B/ERROR] z''],
       is_biomepruner = False\<rparr>]"
    by (simp add: t_segment_def concrete_defs biomepruner_search_def ascii_ci_def
        ascii_lower_def Let_def)
  note t = is_biomepruner_iff_content_matches [where ci = ascii_ci and ls = ?ls and b = ?b
      and i = 1 and msgs = "[]" and es = "[]" and ?e0.0 = ?e0]
  from t have "\<forall>e\<in>set (t_segment ascii_ci ?ls).
      is_biomepruner e = (\<exists>l\<in>set (t_content e). biomepruner_search ascii_ci l)"
    by (rule conjunct1)
  then have 2: "list_all (\<lambda>e. is_biomepruner e = list_ex (biomepruner_search ascii_ci) (t_content e))
     (t_segment ascii_ci ?ls)"
    by (simp only: list_all_iff list_ex_iff)
  have 3: "log_pattern_match (rstrip ?b) = None"
    by (simp add: concrete_defs)
  have 4: "startswith (rstrip ?b) [LBRACKET]" "contains [RBRACKET, SPACE, LBRACKET] (rstrip ?b)"
    by (simp_all add: concrete_defs)
  have 5: "biomepruner_search ascii_ci (rstrip ?b)"
    by (simp add: biomepruner_search_def ustr_def ascii_ci_def ascii_lower_def rstrip_def
        is_space_def)
  from t 3 4 have 6: "snd (t_step ascii_ci 1 ?b ([], [], Some ?e0)) = ([] @ [?e0], None)"
    by blast
  then have 7: "snd (t_step ascii_ci 1 ?b ([], [], Some ?e0)) = ([?e0], None)"
    by (simp only: append_Nil)
  from 1 2 3 4 5 7 show ?thesis
    by (simp only: simp_thms)
qed

text \<open>
  C8: when the input ends while an entry is open, the entry is appended to the
  output.  After any lines \<open>pre\<close>, a header line followed to the end of the input by
  lines that are neither headers nor boundaries yields, after the entries of \<open>pre\<close>,
  one entry whose content is the header line and all those lines, stripped; a header
  line followed by two lines that do not start with a bracket, and then the end of
  the input, yields exactly one entry, with three content lines.
\<close>

theorem end_of_input_closes_entry:
  "(parse_loop 0 ls ([], None) = (es, Some e) \<longrightarrow> segment ls = es @ [e]) \<and>
   (log_pattern_match h = Some (ts, cat, lvl) \<and>
    (\<forall>c\<in>set cs. log_pattern_match c = None \<and> \<not> is_boundary c) \<longrightarrow>
      segment (pre @ h # cs) =
        segment pre @ [\<lparr>line_number = length pre + 1, timestamp = ts, category = cat,
                         level = lvl, content = map rstrip (h # cs)\<rparr>]) \<and>
   (log_pattern_match h = Some (ts, cat, lvl) \<and>
    \<not> startswith c1 [LBRACKET] \<and> \<not> startswith c2 [LBRACKET] \<longrightarrow>
      segment [h, c1, c2] =
        [\<lparr>line_number = 1, timestamp = ts, category = cat, level = lvl,
          content = [rstrip h, rstrip c1, rstrip c2]\<rparr>])"
proof (intro conjI impI)
  assume "parse_loop 0 ls ([], None) = (es, Some e)"
  then show "segment ls = es @ [e]"
    by (simp add: segment_def)
next
  assume "log_pattern_match h = Some (ts, cat, lvl) \<and>
    (\<forall>c\<in>set cs. log_pattern_match c = None \<and> \<not> is_boundary c)"
  then have "log_pattern_match h = Some (ts, cat, lvl)"
    and "\<forall>c\<in>set cs. log_pattern_match c = None \<and> \<not> is_boundary c"
    by blast+
  then show "segment (pre @ h # cs) =
        segment pre @ [\<lparr>line_number = length pre + 1, timestamp = ts, category = cat,
                         level = lvl, content = map rstrip (h # cs)\<rparr>]"
    by (rule segment_header_continuations)
next
  assume a: "log_pattern_match h = Some (ts, cat, lvl) \<and>
    \<not> startswith c1 [LBRACKET] \<and> \<not> startswith c2 [LBRACKET]"
  then have "\<forall>c\<in>set [c1, c2]. log_pattern_match c = None \<and> \<not> is_boundary c"
    by (simp add: not_bracketed)
  moreover from a have "log_pattern_match h = Some (ts, cat, lvl)"
    by blast
  ultimately have "segment ([] @ h # [c1, c2]) =
      segment [] @ [\<lparr>line_number = length ([] :: ustring list) + 1, timestamp = ts, category = cat,
                      level = lvl, content = map rstrip (h # [c1, c2])\<rparr>]"
    by (rule segment_header_continuations [rotated])
  then show "segment [h, c1, c2] =
        [\<lparr>line_number = 1, timestamp = ts, category = cat, level = lvl,
          content = [rstrip h, rstrip c1, rstrip c2]\<rparr>]"
    by (simp add: segment_def)
qed

theorem end_of_input_closes_entry_witness:
  "log_pattern_match (ustr ''[12:00:00] [Server/ERROR] boom'') =
     Some (ustr ''12:00:00'', ustr ''Server'', ustr ''ERROR'') \<and>
   \<not> startswith (ustr ''  at a.b(C.java:1)'') [LBRACKET] \<and>
   \<not> startswith (ustr ''  at d.e(F.java:2)'') [LBRACKET] \<and>
   segment [ustr ''[12:00:00] [Server/ERROR] boom'', ustr ''  at a.b(C.java:1)'',
            ustr ''  at d.e(F.java:2)''] =
     [\<lparr>line_number = 1, timestamp = ustr ''12:00:00'', category = ustr ''Server'',
       level = ustr ''ERROR'',
       content = [ustr ''[12:00:00] [Server/ERROR] boom'', ustr ''  at a.b(C.java:1)'',
                  ustr ''  at d.e(F.java:2)'']\<rparr>] \<and>
   list_all (\<lambda>c. log_pattern_match c = None \<and> \<not> is_boundary c)
     [ustr ''  at a.b(C.java:1)'', ustr ''[no level here'']  \<and>
   segment ([ustr ''noise''] @ ustr ''[12:00:00] [Server/ERROR] boom'' #
            [ustr ''  at a.b(C.java:1)'', ustr ''[no level here'']) =
     segment [ustr ''noise''] @
     [\<lparr>line_number = 2, timestamp = ustr ''12:00:00'', category = ustr ''Server'',
       level = ustr ''ERROR'',
       content = [ustr ''[12:00:00] [Server/ERROR] boom'', ustr ''  at a.b(C.java:1)'',
                  ustr ''[no level here'']\<rparr>] \<and>
   parse_loop 0 [ustr ''[12:00:00] [Server/ERROR] boom''] ([], None) =
     ([], Some \<lparr>line_number = 1, timestamp = ustr ''12:00:00'', category = ustr ''Server'',
                level = ustr ''ERROR'', content = [ustr ''[12:00:00] [Server/ERROR] boom'']\<rparr>) \<and>
   segment [ustr ''[12:00:00] [Server/ERROR] boom''] =
     [\<lparr>line_number = 1, timestamp = ustr ''12:00:00'', category = ustr ''Server'',
       level = ustr ''ERROR'', content = [ustr ''[12:00:00] [Server/ERROR] boom'']\<rparr>]"
proof -
  let ?h = "ustr ''[12:00:00] [Server/ERROR] boom''"
  let ?c1 = "ustr ''  at a.b(C.java:1)''"
  let ?c2 = "ustr ''  at d.e(F.java:2)''"
  let ?c3 = "ustr ''[no level here''"
  let ?e = "\<lparr>line_number = 1, timestamp = ustr ''12:00:00'', category = ustr ''Server'',
      level = ustr ''ERROR'', content = [?h]\<rparr>"
  have 1: "log_pattern_match ?h = Some (ustr ''12:00:00'', ustr ''Server'', ustr ''ERROR'')"
    by (simp add: concrete_defs)
  have 2: "\<not> startswith ?c1 [LBRACKET]" "\<not> startswith ?c2 [LBRACKET]"
    by (simp_all add: concrete_defs)
  have 3: "rstrip ?h = ?h" "rstrip ?c1 = ?c1" "rstrip ?c2 = ?c2" "rstrip ?c3 = ?c3"
    by (simp_all add: concrete_defs)
  have 4: "log_pattern_match ?c1 = None \<and> \<not> is_boundary ?c1"
    by (simp add: concrete_defs)
  have 5: "log_pattern_match ?c3 = None \<and> \<not> is_boundary ?c3"
    by (simp add: concrete_defs)
  have 6: "parse_loop 0 [?h] ([], None) = ([], Some ?e)"
    by (simp add: concrete_defs)
  from end_of_input_closes_entry [where h = ?h and ts = "ustr ''12:00:00''"
      and cat = "ustr ''Server''" and lvl = "ustr ''ERROR''" and ?c1.0 = ?c1 and ?c2.0 = ?c2] 1 2
  have "segment [?h, ?c1, ?c2] =
        [\<lparr>line_number = 1, timestamp = ustr ''12:00:00'', category = ustr ''Server'',
          level = ustr ''ERROR'', content = [rstrip ?h, rstrip ?c1, rstrip ?c2]\<rparr>]"
    by blast
  then have a: "segment [?h, ?c1, ?c2] =
        [\<lparr>line_number = 1, timestamp = ustr ''12:00:00'', category = ustr ''Server'',
          level = ustr ''ERROR'', content = [?h, ?c1, ?c2]\<rparr>]"
    by (simp only: 3)
  from 4 5 have 7: "\<forall>c\<in>set [?c1, ?c3]. log_pattern_match c = None \<and> \<not> is_boundary c"
    by simp
  from end_of_input_closes_entry [where h = ?h and ts = "ustr ''12:00:00''"
      and cat = "ustr ''Server''" and lvl = "ustr ''ERROR''" and cs = "[?c1, ?c3]"
      and pre = "[ustr ''noise'']"] 1 7
  have "segment ([ustr ''noise''] @ ?h # [?c1, ?c3]) =
        segment [ustr ''noise''] @
        [\<lparr>line_number = length [ustr ''noise''] + 1, timestamp = ustr ''12:00:00'',
          category = ustr ''Server'', level = ustr ''ERROR'',
          content = map rstrip (?h # [?c1, ?c3])\<rparr>]"
    by blast
  then have b: "segment ([ustr ''noise''] @ ?h # [?c1, ?c3]) =
        segment [ustr ''noise''] @
        [\<lparr>line_number = 2, timestamp = ustr ''12:00:00'',
          category = ustr ''Server'', level = ustr ''ERROR'', content = [?h, ?c1, ?c3]\<rparr>]"
    by (simp add: 3)
  from end_of_input_closes_entry [where ls = "[?h]" and es = "[]" and e = ?e] 6
  have "segment [?h] = [] @ [?e]"
    by blast
  then have c: "segment [?h] = [?e]"
    by (simp only: append_Nil)
  from 4 5 have d: "list_all (\<lambda>c. log_pattern_match c = None \<and> \<not> is_boundary c) [?c1, ?c3]"
    by simp
  from 1 2 a d b 6 c show ?thesis
    by (simp only: simp_thms)
qed

text \<open>
  C9: on every line sequence the three parsers produce the same entries: the tooling
  parser's entries, read through the fields the parsers have in common
  (\<^verbatim>\<open>thread_category\<close> for \<^verbatim>\<open>category\<close>), and the test runner's entries are the
  standalone parser's entries, although the tooling parser applies the header pattern
  and the boundary test to the stripped line.
\<close>

theorem three_parsers_agree:
  "map common_fields (t_segment ci ls) = segment ls \<and> r_segment ls = segment ls"
proof
  obtain msgs es cur where s: "t_parse_loop ci 0 ls ([], [], None) = (msgs, es, cur)"
    by (cases "t_parse_loop ci 0 ls ([], [], None)")
  with t_parse_loop_common [of ci 0 ls "[]" "[]" None]
  have "parse_loop 0 ls ([], None) = (map common_fields es, map_option common_fields cur)"
    by simp
  with s show "map common_fields (t_segment ci ls) = segment ls"
    by (simp add: t_segment_def segment_def t_finish_common)
next
  show "r_segment ls = segment ls"
    by (simp add: r_segment_def segment_def r_parse_loop_eq)
qed

theorem three_parsers_agree_witness:
  "map common_fields (t_segment ascii_ci
     [ustr ''[1] [A/WARN] x '', ustr '' y'' @ [10], ustr ''[2] [A/INFO] z  '', ustr ''w'']) =
     [\<lparr>line_number = 1, timestamp = ustr ''1'', category = ustr ''A'', level = ustr ''WARN'',
       content = [ustr ''[1] [A/WARN] x'', ustr '' y'']\<rparr>] \<and>
   r_segment [ustr ''[1] [A/WARN] x '', ustr '' y'' @ [10], ustr ''[2] [A/INFO] z  '', ustr ''w''] =
     [\<lparr>line_number = 1, timestamp = ustr ''1'', category = ustr ''A'', level = ustr ''WARN'',
       content = [ustr ''[1] [A/WARN] x'', ustr '' y'']\<rparr>]"
proof -
  let ?ls = "[ustr ''[1] [A/WARN] x '', ustr '' y'' @ [10], ustr ''[2] [A/INFO] z  '', ustr ''w'']"
  have "segment ?ls =
     [\<lparr>line_number = 1, timestamp = ustr ''1'', category = ustr ''A'', level = ustr ''WARN'',
       content = [ustr ''[1] [A/WARN] x'', ustr '' y'']\<rparr>]"
    by (simp add: concrete_defs)
  with three_parsers_agree [of ascii_ci ?ls] show ?thesis
    by (simp only:)
qed

text \<open>
  C10: the groups of a header match split the content of the second bracket pair at
  its last slash.  A match leaves a level without a slash after the captured
  category; and whatever the category is, slashes and level words included, a line
  \<^verbatim>\<open>[ts] [cat/LEVEL]\<close> is matched with all of \<open>cat\<close> as the category and LEVEL as the
  level.  So \<^verbatim>\<open>[t] [A/B/WARN]\<close> has category \<^verbatim>\<open>A/B\<close> and level WARN, and
  \<^verbatim>\<open>[t] [A/WARN/FATAL]\<close> has category \<^verbatim>\<open>A/WARN\<close> and level FATAL.
\<close>

theorem category_splits_at_last_slash:
  "(log_pattern_match line = Some (ts, cat, lvl) \<longrightarrow>
      (\<exists>ws rest. line = LBRACKET # ts @ RBRACKET # ws @ LBRACKET # cat @ SLASH # lvl @ RBRACKET # rest \<and>
         RBRACKET \<notin> set cat \<and> lvl \<in> set levels \<and> SLASH \<notin> set lvl \<and> RBRACKET \<notin> set lvl)) \<and>
   (ts \<noteq> [] \<and> RBRACKET \<notin> set ts \<and> list_all is_space ws \<and> cat \<noteq> [] \<and> RBRACKET \<notin> set cat \<and>
    lvl \<in> set levels \<longrightarrow>
      log_pattern_match
        (LBRACKET # ts @ RBRACKET # ws @ LBRACKET # cat @ SLASH # lvl @ RBRACKET # rest) =
      Some (ts, cat, lvl)) \<and>
   log_pattern_match (ustr ''[t] [A/B/WARN]'') = Some (ustr ''t'', ustr ''A/B'', ustr ''WARN'') \<and>
   log_pattern_match (ustr ''[t] [A/WARN/FATAL]'') =
     Some (ustr ''t'', ustr ''A/WARN'', ustr ''FATAL'')"
proof (intro conjI impI)
  assume "log_pattern_match line = Some (ts, cat, lvl)"
  then obtain ws rest where h: "header_shape line ts ws cat lvl rest"
    by (auto simp only: log_pattern_match_iff)
  then have "lvl \<in> set levels"
    by (simp add: header_shape_def)
  then have "SLASH \<notin> set lvl \<and> RBRACKET \<notin> set lvl"
    by (auto simp: levels_def ustr_def SLASH_def RBRACKET_def)
  with h show "\<exists>ws rest. line = LBRACKET # ts @ RBRACKET # ws @ LBRACKET # cat @ SLASH # lvl @ RBRACKET # rest \<and>
         RBRACKET \<notin> set cat \<and> lvl \<in> set levels \<and> SLASH \<notin> set lvl \<and> RBRACKET \<notin> set lvl"
    unfolding header_shape_def by blast
next
  assume "ts \<noteq> [] \<and> RBRACKET \<notin> set ts \<and> list_all is_space ws \<and> cat \<noteq> [] \<and> RBRACKET \<notin> set cat \<and>
    lvl \<in> set levels"
  then have "header_shape
      (LBRACKET # ts @ RBRACKET # ws @ LBRACKET # cat @ SLASH # lvl @ RBRACKET # rest)
      ts ws cat lvl rest"
    by (simp add: header_shape_def)
  then show "log_pattern_match
        (LBRACKET # ts @ RBRACKET # ws @ LBRACKET # cat @ SLASH # lvl @ RBRACKET # rest) =
      Some (ts, cat, lvl)"
    by (simp only: log_pattern_match_iff) blast
next
  show "log_pattern_match (ustr ''[t] [A/B/WARN]'') = Some (ustr ''t'', ustr ''A/B'', ustr ''WARN'')"
    by (simp add: concrete_defs)
next
  show "log_pattern_match (ustr ''[t] [A/WARN/FATAL]'') =
     Some (ustr ''t'', ustr ''A/WARN'', ustr ''FATAL'')"
    by (simp add: concrete_defs)
qed

theorem category_splits_at_last_slash_witness:
  "ustr ''t'' \<noteq> [] \<and> RBRACKET \<notin> set (ustr ''t'') \<and> list_all is_space [SPACE] \<and>
   ustr ''A/ERROR/B'' \<noteq> [] \<and> RBRACKET \<notin> set (ustr ''A/ERROR/B'') \<and> ustr ''WARN'' \<in> set levels \<and>
   log_pattern_match (ustr ''[t] [A/ERROR/B/WARN] x'') =
     Some (ustr ''t'', ustr ''A/ERROR/B'', ustr ''WARN'') \<and>
   (\<exists>ws rest. ustr ''[t] [A/ERROR/B/WARN] x'' =
      LBRACKET # ustr ''t'' @ RBRACKET # ws @ LBRACKET # ustr ''A/ERROR/B'' @ SLASH # ustr ''WARN'' @
      RBRACKET # rest \<and> SLASH \<notin> set (ustr ''WARN''))"
proof -
  have h: "ustr ''t'' \<noteq> [] \<and> RBRACKET \<notin> set (ustr ''t'') \<and> list_all is_space [SPACE] \<and>
      ustr ''A/ERROR/B'' \<noteq> [] \<and> RBRACKET \<notin> set (ustr ''A/ERROR/B'') \<and> ustr ''WARN'' \<in> set levels"
    by (simp add: concrete_defs)
  have e: "LBRACKET # ustr ''t'' @ RBRACKET # [SPACE] @ LBRACKET # ustr ''A/ERROR/B'' @ SLASH #
      ustr ''WARN'' @ RBRACKET # ustr '' x'' = ustr ''[t] [A/ERROR/B/WARN] x''"
    by (simp add: concrete_defs)
  from category_splits_at_last_slash [where ts = "ustr ''t''" and cat = "ustr ''A/ERROR/B''"
      and lvl = "ustr ''WARN''" and ws = "[SPACE]" and rest = "ustr '' x''"] h
  have "log_pattern_match (LBRACKET # ustr ''t'' @ RBRACKET # [SPACE] @ LBRACKET #
      ustr ''A/ERROR/B'' @ SLASH # ustr ''WARN'' @ RBRACKET # ustr '' x'') =
      Some (ustr ''t'', ustr ''A/ERROR/B'', ustr ''WARN'')"
    by blast
  then have m: "log_pattern_match (ustr ''[t] [A/ERROR/B/WARN] x'') =
      Some (ustr ''t'', ustr ''A/ERROR/B'', ustr ''WARN'')"
    by (simp only: e)
  from category_splits_at_last_slash [where line = "ustr ''[t] [A/ERROR/B/WARN] x''"
      and ts = "ustr ''t''" and cat = "ustr ''A/ERROR/B''" and lvl = "ustr ''WARN''"] m
  have "\<exists>ws rest. ustr ''[t] [A/ERROR/B/WARN] x'' =
      LBRACKET # ustr ''t'' @ RBRACKET # ws @ LBRACKET # ustr ''A/ERROR/B'' @ SLASH # ustr ''WARN'' @
      RBRACKET # rest \<and> SLASH \<notin> set (ustr ''WARN'')"
    by blast
  with h m show ?thesis
    by (simp only: simp_thms)
qed


end
